theory Spec2Isabelle
  imports Complex_Main "HOL-Library.Multiset" "HOL-Library.AList"
begin

section \<open>Data model\<close>

text \<open>
  The model follows \<^verbatim>\<open>game_3d_enhanced.py\<close>. Python integers are \<^typ>\<open>int\<close>,
  Python floats are idealised as \<^typ>\<open>real\<close>, a raised exception is the left
  summand of a result of type \<open>error + 'a\<close>.
\<close>

datatype error = IndexError | ValueError | AttributeError | ZeroDivisionError

record vector3d =
  vec_x :: real
  vec_y :: real
  vec_z :: real

text \<open>The fields of \<^verbatim>\<open>Player\<close> that movement, physics and experience use.\<close>

record player =
  position :: vector3d
  rotation_y :: real
  rotation_x :: real
  speed :: real
  max_hp :: int
  hp :: int
  velocity_y :: real
  is_jumping :: bool
  experience :: int
  level :: int

text \<open>
  The dictionaries of \<^verbatim>\<open>self.rooms\<close>, \<^verbatim>\<open>self.monsters\<close> and \<^verbatim>\<open>self.treasures\<close>;
  a monster's \<^verbatim>\<open>info\<close> is fixed by its name and is left out.
\<close>

record room =
  rm_x :: int
  rm_y :: int
  rm_width :: int
  rm_height :: int
  rm_center_x :: int
  rm_center_y :: int

record monster =
  mon_name :: string
  mon_defeated :: bool
  mon_health :: int

record treasure =
  tr_opened :: bool
  tr_contents :: string

text \<open>
  \<^verbatim>\<open>MazeMap\<close>: the grid is a list of rows, \<^verbatim>\<open>maze[y][x]\<close>, with tags 0 (wall),
  1 (corridor), 2 (room) and 3 (door). The two dictionaries are keyed by \<open>(x, z)\<close>
  and kept in insertion order. The terrain heights are left out: they are computed
  from the finished grid and nothing reads them back into it.
\<close>

type_synonym grid = "int list list"

record maze_map =
  width :: int
  height :: int
  base_level :: real
  wall_height :: real
  maze :: grid
  rooms :: "room list"
  monsters :: "((int \<times> int) \<times> monster) list"
  treasures :: "((int \<times> int) \<times> treasure) list"

record camera =
  fov :: real
  near :: real
  far :: real

definition player_init :: "real \<Rightarrow> real \<Rightarrow> player" where
  "player_init start_x start_z =
     \<lparr>position = \<lparr>vec_x = start_x, vec_y = 0.7, vec_z = start_z\<rparr>,
      rotation_y = 0, rotation_x = 0, speed = 0.2, max_hp = 5, hp = 5,
      velocity_y = 0, is_jumping = False, experience = 0, level = 1\<rparr>"

definition camera_init :: camera where
  "camera_init = \<lparr>fov = 70, near = 0.001, far = 500\<rparr>"

section \<open>Player.gain_experience\<close>

text \<open>
  \<^verbatim>\<open>self.experience += amount; new_level = (self.experience // 100) + 1\<close>; on a
  level-up the level is set, \<^verbatim>\<open>max_hp\<close> grows by one, \<^verbatim>\<open>hp\<close> is refilled and
  \<^verbatim>\<open>True\<close> is returned. Python's \<^verbatim>\<open>//\<close> on integers is floor division, as
  \<open>div\<close> on \<^typ>\<open>int\<close>.
\<close>

definition gain_experience :: "player \<Rightarrow> int \<Rightarrow> bool \<times> player" where
  "gain_experience p amount =
     (let p1 = p\<lparr>experience := experience p + amount\<rparr>;
          new_level = (experience p1 div 100) + 1
      in if new_level > level p1
         then (let p2 = p1\<lparr>level := new_level\<rparr>;
                   p3 = p2\<lparr>max_hp := max_hp p2 + 1\<rparr>;
                   p4 = p3\<lparr>hp := max_hp p3\<rparr>
               in (True, p4))
         else (False, p1))"

section \<open>MazeMap: effective dimensions\<close>

text \<open>
  \<^verbatim>\<open>self.width = width if width % 2 == 1 else width + 1\<close>. Python's \<^verbatim>\<open>%\<close> with a
  positive modulus is never negative, as \<open>mod\<close> on \<^typ>\<open>int\<close>.
\<close>

definition effective_dim :: "int \<Rightarrow> int" where
  "effective_dim n = (if n mod 2 = 1 then n else n + 1)"

definition start_coord :: "int \<Rightarrow> int" where
  "start_coord n = 12 + (n div 24) * 12"

section \<open>Python lists, ranges and the random module\<close>

text \<open>
  \<^verbatim>\<open>xs[i]\<close> and \<^verbatim>\<open>xs[i] = v\<close>: a negative index counts from the end, an index
  outside \<open>-len \<dots> len-1\<close> raises IndexError.
\<close>

definition norm_index :: "nat \<Rightarrow> int \<Rightarrow> nat option" where
  "norm_index len i =
     (if 0 \<le> i \<and> i < int len then Some (nat i)
      else if - int len \<le> i \<and> i < 0 then Some (nat (int len + i))
      else None)"

definition py_index :: "'a list \<Rightarrow> int \<Rightarrow> error + 'a" where
  "py_index xs i =
     (case norm_index (length xs) i of None \<Rightarrow> Inl IndexError | Some j \<Rightarrow> Inr (xs ! j))"

definition py_store :: "'a list \<Rightarrow> int \<Rightarrow> 'a \<Rightarrow> error + 'a list" where
  "py_store xs i v =
     (case norm_index (length xs) i of None \<Rightarrow> Inl IndexError | Some j \<Rightarrow> Inr (xs[j := v]))"

text \<open>A \<^verbatim>\<open>for\<close> loop over a list whose body may raise: the first error ends the loop.\<close>

fun efold :: "('a \<Rightarrow> 's \<Rightarrow> error + 's) \<Rightarrow> 'a list \<Rightarrow> 's \<Rightarrow> error + 's" where
  "efold f [] s = Inr s"
| "efold f (x # xs) s = (case f x s of Inl e \<Rightarrow> Inl e | Inr s' \<Rightarrow> efold f xs s')"

text \<open>\<^verbatim>\<open>range(a, b)\<close> is \<open>[a..b - 1]\<close>; \<^verbatim>\<open>range(a, b, step)\<close> for a positive step:\<close>

definition range_len :: "int \<Rightarrow> int \<Rightarrow> int \<Rightarrow> nat" where
  "range_len a b step = (if a < b then nat ((b - a + step - 1) div step) else 0)"

definition py_range :: "int \<Rightarrow> int \<Rightarrow> int \<Rightarrow> int list" where
  "py_range a b step = map (\<lambda>k. a + step * int k) [0..<range_len a b step]"

text \<open>
  The random module. Every call site takes its raw draw (a natural number) from an
  oracle, so a theorem over all oracles covers every run. \<^verbatim>\<open>randint(a, b)\<close> is
  uniform on \<open>a \<dots> b\<close>; \<^verbatim>\<open>randrange(a, b, step)\<close> picks an element of the range and
  raises ValueError when the range is empty; \<^verbatim>\<open>shuffle\<close> is CPython's Fisher-Yates
  loop \<^verbatim>\<open>for i in reversed(range(1, len(x))): j = randbelow(i + 1); x[i], x[j] = x[j], x[i]\<close>.
\<close>

definition randint :: "int \<Rightarrow> int \<Rightarrow> nat \<Rightarrow> int" where
  "randint a b r = a + int (r mod nat (b - a + 1))"

definition randrange :: "int \<Rightarrow> int \<Rightarrow> int \<Rightarrow> nat \<Rightarrow> error + int" where
  "randrange a b step r =
     (if range_len a b step = 0 then Inl ValueError
      else Inr (a + step * int (r mod range_len a b step)))"

definition swap :: "'a list \<Rightarrow> nat \<Rightarrow> nat \<Rightarrow> 'a list" where
  "swap xs i j = xs[i := xs ! j, j := xs ! i]"

primrec shuffle_down :: "(nat \<Rightarrow> nat) \<Rightarrow> nat \<Rightarrow> 'a list \<Rightarrow> 'a list" where
  "shuffle_down draw 0 xs = xs"
| "shuffle_down draw (Suc i) xs =
     shuffle_down draw i (swap xs (Suc i) (draw (Suc i) mod Suc (Suc i)))"

definition shuffle :: "(nat \<Rightarrow> nat) \<Rightarrow> 'a list \<Rightarrow> 'a list" where
  "shuffle draw xs = shuffle_down draw (length xs - 1) xs"

section \<open>MazeMap.generate_maze\<close>

text \<open>
  \<^verbatim>\<open>maze[y][x]\<close> and \<^verbatim>\<open>maze[y][x] = v\<close>. Rows are separate list objects, so a
  store changes one cell.
\<close>

definition maze_get :: "grid \<Rightarrow> int \<Rightarrow> int \<Rightarrow> error + int" where
  "maze_get m y x = (case py_index m y of Inl e \<Rightarrow> Inl e | Inr row \<Rightarrow> py_index row x)"

definition maze_set :: "grid \<Rightarrow> int \<Rightarrow> int \<Rightarrow> int \<Rightarrow> error + grid" where
  "maze_set m y x v =
     (case py_index m y of
        Inl e \<Rightarrow> Inl e
      | Inr row \<Rightarrow> (case py_store row x v of
                     Inl e \<Rightarrow> Inl e
                   | Inr row' \<Rightarrow> py_store m y row'))"

definition walkable :: "int \<Rightarrow> bool" where
  "walkable c \<longleftrightarrow> c \<in> set [1, 2, 3]"

text \<open>\<^verbatim>\<open>range(-3, 4)\<close>, the offsets of a 7 wide strip.\<close>

definition offsets :: "int list" where
  "offsets = [-3..3]"

text \<open>The 7x7 open area around a cell, clipped to the grid.\<close>

definition open_block :: "int \<Rightarrow> int \<Rightarrow> int \<Rightarrow> int \<Rightarrow> grid \<Rightarrow> error + grid" where
  "open_block w h cx cy =
     efold (\<lambda>dy. efold (\<lambda>dx m.
        if 0 \<le> cy + dy \<and> cy + dy < h \<and> 0 \<le> cx + dx \<and> cx + dx < w
        then maze_set m (cy + dy) (cx + dx) 1 else Inr m) offsets) offsets"

text \<open>\<^verbatim>\<open>dx // abs(dx) if dx != 0 else 0\<close>\<close>

definition unit_step :: "int \<Rightarrow> int" where
  "unit_step d = (if d \<noteq> 0 then d div \<bar>d\<bar> else 0)"

text \<open>The 7 wide corridor between the current cell and the next one (both excluded).\<close>

definition carve_corridor :: "int \<Rightarrow> int \<Rightarrow> int \<Rightarrow> int \<Rightarrow> int \<Rightarrow> int \<Rightarrow> grid \<Rightarrow> error + grid" where
  "carve_corridor w h current_x current_y dx dy =
     efold (\<lambda>corridor_step m.
        (let step_x = current_x + unit_step dx * corridor_step;
             step_y = current_y + unit_step dy * corridor_step
         in if dx \<noteq> 0
            then efold (\<lambda>offset m'.
                   if 0 \<le> step_y + offset \<and> step_y + offset < h
                   then maze_set m' (step_y + offset) step_x 1 else Inr m') offsets m
            else efold (\<lambda>offset m'.
                   if 0 \<le> step_x + offset \<and> step_x + offset < w
                   then maze_set m' step_y (step_x + offset) 1 else Inr m') offsets m))
       [1..\<bar>dx\<bar> + \<bar>dy\<bar> - 1]"

definition directions :: "(int \<times> int) list" where
  "directions = [(0, 12), (12, 0), (0, -12), (-12, 0)]"

text \<open>
  The \<^verbatim>\<open>for dx, dy in directions\<close> loop of one iteration: the first direction whose
  target is inside the 6-cell margin and still a wall is carved and returned
  (\<^verbatim>\<open>found_unvisited\<close>, then \<^verbatim>\<open>break\<close>); \<open>None\<close> when there is none.
\<close>

fun try_directions ::
  "int \<Rightarrow> int \<Rightarrow> grid \<Rightarrow> int \<Rightarrow> int \<Rightarrow> (int \<times> int) list \<Rightarrow> error + (grid \<times> (int \<times> int) option)" where
  "try_directions w h m current_x current_y [] = Inr (m, None)"
| "try_directions w h m current_x current_y ((dx, dy) # ds) =
     (let nx = current_x + dx; ny = current_y + dy
      in if 6 \<le> nx \<and> nx < w - 6 \<and> 6 \<le> ny \<and> ny < h - 6
         then (case maze_get m ny nx of
                 Inl e \<Rightarrow> Inl e
               | Inr c \<Rightarrow>
                   if c = 0
                   then (case carve_corridor w h current_x current_y dx dy m of
                           Inl e \<Rightarrow> Inl e
                         | Inr m1 \<Rightarrow> (case open_block w h nx ny m1 of
                                        Inl e \<Rightarrow> Inl e
                                      | Inr m2 \<Rightarrow> Inr (m2, Some (nx, ny))))
                   else try_directions w h m current_x current_y ds)
         else try_directions w h m current_x current_y ds)"

text \<open>
  The \<^verbatim>\<open>while stack:\<close> loop. The stack is a list with its top first; \<open>draw k\<close>
  holds the draws of the shuffle in iteration \<open>k\<close>.
\<close>

function carve_passages ::
  "int \<Rightarrow> int \<Rightarrow> (nat \<Rightarrow> nat \<Rightarrow> nat) \<Rightarrow> nat \<Rightarrow> grid \<Rightarrow> (int \<times> int) list \<Rightarrow> error + grid" where
  "carve_passages w h draw k m [] = Inr m"
| "carve_passages w h draw k m ((current_x, current_y) # rest) =
     (case try_directions w h m current_x current_y (shuffle (draw k) directions) of
        Inl e \<Rightarrow> Inl e
      | Inr (m', None) \<Rightarrow> carve_passages w h draw (Suc k) m' rest
      | Inr (m', Some n) \<Rightarrow>
          carve_passages w h draw (Suc k) m' (n # (current_x, current_y) # rest))"
  by pat_completeness auto

text \<open>
  The targets the loop may still visit, and the grids that differ from a grid only
  by cells that were set to a given tag. Both serve the termination proof of the
  loop: every push turns a wall target into an open cell, and no cell becomes a
  wall again.
\<close>

definition unvisited :: "int \<Rightarrow> int \<Rightarrow> grid \<Rightarrow> (int \<times> int) set" where
  "unvisited w h m =
     {(x, y). 6 \<le> x \<and> x < w - 6 \<and> 6 \<le> y \<and> y < h - 6 \<and> maze_get m y x = Inr 0}"


definition writes_only :: "int \<Rightarrow> grid \<Rightarrow> grid \<Rightarrow> bool" where
  "writes_only v m m' \<longleftrightarrow>
     (\<forall>y x. maze_get m' y x = Inr v \<or> maze_get m' y x = maze_get m y x)"

lemma norm_index_less: "norm_index n i = Some j \<Longrightarrow> j < n"
  by (auto simp: norm_index_def split: if_splits)

lemma maze_get_unfold:
  "maze_get m y x =
     (case norm_index (length m) y of
        None \<Rightarrow> Inl IndexError
      | Some jy \<Rightarrow> (case norm_index (length (m ! jy)) x of
                     None \<Rightarrow> Inl IndexError
                   | Some jx \<Rightarrow> Inr (m ! jy ! jx)))"
  by (simp add: maze_get_def py_index_def split: option.splits)

lemma maze_set_cases:
  assumes "maze_set m y x v = Inr m'"
  obtains jy jx where "norm_index (length m) y = Some jy"
    and "norm_index (length (m ! jy)) x = Some jx"
    and "m' = m[jy := (m ! jy)[jx := v]]"
  using assms
  by (simp add: maze_set_def py_index_def py_store_def split: option.splits)

lemma maze_get_update:
  assumes "jy < length m" and "jx < length (m ! jy)"
  shows "maze_get (m[jy := (m ! jy)[jx := v]]) y x = Inr v
       \<or> maze_get (m[jy := (m ! jy)[jx := v]]) y x = maze_get m y x"
proof (cases "norm_index (length m) y")
  case None
  then show ?thesis by (simp add: maze_get_unfold)
next
  case (Some ky)
  then have ky: "ky < length m" by (rule norm_index_less)
  show ?thesis
  proof (cases "ky = jy")
    case False
    with Some ky show ?thesis by (simp add: maze_get_unfold split: option.splits)
  next
    case True
    show ?thesis
    proof (cases "norm_index (length (m ! jy)) x")
      case None
      with Some True ky show ?thesis by (simp add: maze_get_unfold)
    next
      case (Some kx)
      then have "kx < length (m ! jy)" by (rule norm_index_less)
      with Some \<open>norm_index (length m) y = Some ky\<close> True ky assms show ?thesis
        by (simp add: maze_get_unfold nth_list_update)
    qed
  qed
qed

lemma maze_set_get_same: "maze_set m y x v = Inr m' \<Longrightarrow> maze_get m' y x = Inr v"
proof (erule maze_set_cases)
  fix jy jx
  assume a: "norm_index (length m) y = Some jy" "norm_index (length (m ! jy)) x = Some jx"
    "m' = m[jy := (m ! jy)[jx := v]]"
  have "jy < length m" "jx < length (m ! jy)" using a(1,2) by (auto dest: norm_index_less)
  with a show ?thesis by (simp add: maze_get_unfold)
qed

lemma maze_set_writes_only: "maze_set m y x v = Inr m' \<Longrightarrow> writes_only v m m'"
proof (erule maze_set_cases)
  fix jy jx
  assume a: "norm_index (length m) y = Some jy" "norm_index (length (m ! jy)) x = Some jx"
    "m' = m[jy := (m ! jy)[jx := v]]"
  have "jy < length m" "jx < length (m ! jy)" using a(1,2) by (auto dest: norm_index_less)
  then show ?thesis unfolding writes_only_def a(3) by (intro allI maze_get_update)
qed

lemma finite_unvisited: "finite (unvisited w h m)"
proof -
  have "unvisited w h m \<subseteq> {6..<w - 6} \<times> {6..<h - 6}"
    by (auto simp: unvisited_def)
  then show ?thesis by (rule finite_subset) simp
qed

lemma writes_only_refl: "writes_only v m m"
  by (simp add: writes_only_def)

lemma writes_only_trans: "writes_only v a b \<Longrightarrow> writes_only v b c \<Longrightarrow> writes_only v a c"
  unfolding writes_only_def by metis

lemma efold_invariant:
  assumes "efold f xs s = Inr s'" and "I s"
      and "\<And>a t t'. a \<in> set xs \<Longrightarrow> I t \<Longrightarrow> f a t = Inr t' \<Longrightarrow> I t'"
  shows "I s'"
  using assms
proof (induction xs arbitrary: s)
  case Nil
  then show ?case by simp
next
  case (Cons a xs)
  from Cons.prems(1) obtain t where t: "f a s = Inr t" and rest: "efold f xs t = Inr s'"
    by (auto split: sum.splits)
  have "I t" using Cons.prems(2,3) t by auto
  then show ?case using Cons.IH [OF rest] Cons.prems(3) by auto
qed

lemma efold_hit:
  assumes "efold f xs s = Inr s'" and "a \<in> set xs"
      and "\<And>t t'. f a t = Inr t' \<Longrightarrow> Q t'"
      and "\<And>b t t'. b \<in> set xs \<Longrightarrow> Q t \<Longrightarrow> f b t = Inr t' \<Longrightarrow> Q t'"
  shows "Q s'"
  using assms
proof (induction xs arbitrary: s)
  case Nil
  then show ?case by simp
next
  case (Cons b xs)
  from Cons.prems(1) obtain t where t: "f b s = Inr t" and rest: "efold f xs t = Inr s'"
    by (auto split: sum.splits)
  have keep: "Q u'" if "c \<in> set xs" "Q u" "f c u = Inr u'" for c u u'
    using Cons.prems(4) [of c u u'] that by simp
  show ?case
  proof (cases "a = b")
    case True
    then have "Q t" using Cons.prems(3) t by auto
    then show ?thesis by (rule efold_invariant [OF rest]) (rule keep)
  next
    case False
    then have "a \<in> set xs" using Cons.prems(2) by auto
    then show ?thesis by (rule Cons.IH [OF rest _ Cons.prems(3) keep])
  qed
qed

lemma efold_writes_only:
  assumes "efold f xs s = Inr s'"
      and "\<And>a t t'. a \<in> set xs \<Longrightarrow> f a t = Inr t' \<Longrightarrow> writes_only v t t'"
  shows "writes_only v s s'"
proof (rule efold_invariant [OF assms(1), of "writes_only v s"])
  show "writes_only v s s" by (rule writes_only_refl)
next
  fix a t t'
  assume "a \<in> set xs" "writes_only v s t" "f a t = Inr t'"
  then show "writes_only v s t'"
    using assms(2) writes_only_trans by blast
qed

lemma guarded_set_writes_only:
  "(if g then maze_set m y x v else Inr m) = Inr m' \<Longrightarrow> writes_only v m m'"
  by (auto split: if_splits intro: maze_set_writes_only writes_only_refl)

lemma strip_writes_only:
  assumes "efold (\<lambda>a m. if g a then maze_set m (fy a) (fx a) v else Inr m) xs m = Inr m'"
  shows "writes_only v m m'"
  using assms by (rule efold_writes_only) (rule guarded_set_writes_only)

lemma open_block_writes_only:
  assumes "open_block w h cx cy m = Inr m'"
  shows "writes_only 1 m m'"
  using assms unfolding open_block_def
  by (rule efold_writes_only) (rule strip_writes_only)

lemma carve_corridor_writes_only:
  assumes "carve_corridor w h cx cy dx dy m = Inr m'"
  shows "writes_only 1 m m'"
  using assms unfolding carve_corridor_def
proof (rule efold_writes_only)
  fix a t t'
  assume a: "(let step_x = cx + unit_step dx * a; step_y = cy + unit_step dy * a
        in if dx \<noteq> 0
           then efold (\<lambda>offset m'. if 0 \<le> step_y + offset \<and> step_y + offset < h
                  then maze_set m' (step_y + offset) step_x 1 else Inr m') offsets t
           else efold (\<lambda>offset m'. if 0 \<le> step_x + offset \<and> step_x + offset < w
                  then maze_set m' step_y (step_x + offset) 1 else Inr m') offsets t) = Inr t'"
  show "writes_only 1 t t'"
  proof (cases "dx \<noteq> 0")
    case True
    with a show ?thesis unfolding Let_def by (simp only: if_True simp_thms) (rule strip_writes_only)
  next
    case False
    with a show ?thesis unfolding Let_def by (simp only: if_False simp_thms) (rule strip_writes_only)
  qed
qed

lemma writes_only_keeps:
  "writes_only v m m' \<Longrightarrow> maze_get m y x = Inr v \<Longrightarrow> maze_get m' y x = Inr v"
  unfolding writes_only_def by metis

lemma writes_one_no_new_wall:
  "writes_only 1 m m' \<Longrightarrow> maze_get m' y x = Inr 0 \<Longrightarrow> maze_get m y x = Inr 0"
  unfolding writes_only_def by (metis Inr_inject zero_neq_one)

lemma offsets_zero: "0 \<in> set offsets"
  by (simp add: offsets_def)

lemma open_block_center:
  assumes "open_block w h cx cy m = Inr m'" and "0 \<le> cx" "cx < w" "0 \<le> cy" "cy < h"
  shows "maze_get m' cy cx = Inr 1"
  using assms(1) unfolding open_block_def
proof (rule efold_hit [where a = 0])
  show "0 \<in> set offsets" by (rule offsets_zero)
next
  fix t t'
  assume "efold (\<lambda>dx m. if 0 \<le> cy + 0 \<and> cy + 0 < h \<and> 0 \<le> cx + dx \<and> cx + dx < w
            then maze_set m (cy + 0) (cx + dx) 1 else Inr m) offsets t = Inr t'"
  then show "maze_get t' cy cx = Inr 1"
  proof (rule efold_hit [where a = 0])
    show "0 \<in> set offsets" by (rule offsets_zero)
  next
    fix u u'
    assume "(if 0 \<le> cy + 0 \<and> cy + 0 < h \<and> 0 \<le> cx + 0 \<and> cx + 0 < w
            then maze_set u (cy + 0) (cx + 0) 1 else Inr u) = Inr u'"
    with assms(2-5) show "maze_get u' cy cx = Inr 1"
      by (simp add: maze_set_get_same)
  next
    fix b u u'
    assume "maze_get u cy cx = Inr 1"
      and "(if 0 \<le> cy + 0 \<and> cy + 0 < h \<and> 0 \<le> cx + b \<and> cx + b < w
            then maze_set u (cy + 0) (cx + b) 1 else Inr u) = Inr u'"
    then show "maze_get u' cy cx = Inr 1"
      by (meson guarded_set_writes_only writes_only_keeps)
  qed
next
  fix b t t'
  assume q: "maze_get t cy cx = Inr 1"
    and e: "efold (\<lambda>dx m. if 0 \<le> cy + b \<and> cy + b < h \<and> 0 \<le> cx + dx \<and> cx + dx < w
            then maze_set m (cy + b) (cx + dx) 1 else Inr m) offsets t = Inr t'"
  from e have "writes_only 1 t t'" by (rule strip_writes_only)
  then show "maze_get t' cy cx = Inr 1" using q by (rule writes_only_keeps)
qed

lemma try_directions_result:
  assumes "try_directions w h m cx cy ds = Inr (m', r)"
  shows "case r of None \<Rightarrow> m' = m
         | Some (nx, ny) \<Rightarrow> (nx, ny) \<in> unvisited w h m \<and> (nx - cx, ny - cy) \<in> set ds
             \<and> writes_only 1 m m' \<and> maze_get m' ny nx = Inr 1"
  using assms
proof (induction ds)
  case Nil
  then show ?case by simp
next
  case (Cons d ds)
  obtain dx dy where d: "d = (dx, dy)" by (cases d)
  let ?nx = "cx + dx" and ?ny = "cy + dy"
  show ?case
  proof (cases "6 \<le> ?nx \<and> ?nx < w - 6 \<and> 6 \<le> ?ny \<and> ?ny < h - 6 \<and> maze_get m ?ny ?nx = Inr 0")
    case True
    with Cons.prems d obtain m1 where
      m1: "carve_corridor w h cx cy dx dy m = Inr m1" and
      m2: "open_block w h ?nx ?ny m1 = Inr m'" and r: "r = Some (?nx, ?ny)"
      by (auto simp: Let_def split: sum.splits)
    have "writes_only 1 m m'"
      using carve_corridor_writes_only [OF m1] open_block_writes_only [OF m2]
      by (rule writes_only_trans)
    moreover have "maze_get m' ?ny ?nx = Inr 1"
      using m2 True by (intro open_block_center) auto
    moreover have "(?nx, ?ny) \<in> unvisited w h m"
      using True by (simp add: unvisited_def)
    ultimately show ?thesis using r d by simp
  next
    case False
    with Cons.prems d have "try_directions w h m cx cy ds = Inr (m', r)"
      by (auto simp: Let_def split: sum.splits if_splits)
    from Cons.IH [OF this] show ?thesis
      by (auto split: option.splits)
  qed
qed

lemma carve_step_decreases:
  assumes "try_directions w h m cx cy ds = Inr (m', Some n)"
  shows "card (unvisited w h m') < card (unvisited w h m)"
proof -
  obtain nx ny where n: "n = (nx, ny)" by (cases n)
  from try_directions_result [OF assms] n
  have a: "(nx, ny) \<in> unvisited w h m" and b: "writes_only 1 m m'"
    and c: "maze_get m' ny nx = Inr 1"
    by auto
  have "unvisited w h m' \<subseteq> unvisited w h m"
    using b by (auto simp: unvisited_def dest: writes_one_no_new_wall)
  moreover have "(nx, ny) \<notin> unvisited w h m'"
    using c by (simp add: unvisited_def)
  ultimately have "unvisited w h m' \<subset> unvisited w h m" using a by blast
  then show ?thesis by (rule psubset_card_mono [OF finite_unvisited])
qed

lemma no_step_same_grid:
  "try_directions w h m cx cy ds = Inr (m', None) \<Longrightarrow> m' = m"
  using try_directions_result [of w h m cx cy ds m' None] by simp


termination carve_passages
  apply (relation "measure (\<lambda>(w, h, draw, k, m, stack). 2 * card (unvisited w h m) + length stack)")
    apply simp
   apply (auto dest!: no_step_same_grid carve_step_decreases)
  done

section \<open>Rooms and extra connections\<close>

text \<open>
  The draws of one construction of a \<^verbatim>\<open>MazeMap\<close>, one field per call site of the
  random module, indexed by the loop iteration where the call is in a loop.
\<close>

record rng =
  dirs_draw :: "nat \<Rightarrow> nat \<Rightarrow> nat"
  num_rooms_draw :: nat
  room_w_draw :: "nat \<Rightarrow> nat"
  room_h_draw :: "nat \<Rightarrow> nat"
  room_x_draw :: "nat \<Rightarrow> nat"
  room_y_draw :: "nat \<Rightarrow> nat"
  room_links_draw :: "nat \<Rightarrow> nat"
  sides_draw :: "nat \<Rightarrow> nat \<Rightarrow> nat"
  max_connections_draw :: nat
  conn_x_draw :: "nat \<Rightarrow> nat"
  conn_y_draw :: "nat \<Rightarrow> nat"
  conn_h_coin :: "nat \<Rightarrow> real"
  conn_v_coin :: "nat \<Rightarrow> real"
  num_monsters_draw :: nat
  monster_order_draw :: "nat \<Rightarrow> nat"
  monster_kind_draw :: "nat \<Rightarrow> nat"
  monster_bonus_draw :: "nat \<Rightarrow> nat"
  monster_health_draw :: "nat \<Rightarrow> nat"
  num_treasures_draw :: nat
  treasure_coin :: "int \<Rightarrow> int \<Rightarrow> real"
  treasure_order_draw :: "nat \<Rightarrow> nat"
  treasure_kind_draw :: "nat \<Rightarrow> nat"

text \<open>The \<^verbatim>\<open>wall_count\<close> loops of \<^verbatim>\<open>add_rooms\<close> over the footprint of a candidate.\<close>

definition count_walls :: "grid \<Rightarrow> int \<Rightarrow> int \<Rightarrow> int \<Rightarrow> int \<Rightarrow> error + int" where
  "count_walls m room_x room_y room_w room_h =
     efold (\<lambda>ry. efold (\<lambda>rx wall_count.
              case maze_get m ry rx of
                Inl e \<Rightarrow> Inl e
              | Inr c \<Rightarrow> Inr (if c = 0 then wall_count + 1 else wall_count))
            [room_x..room_x + room_w - 1])
       [room_y..room_y + room_h - 1] 0"

text \<open>The interior of the room, one cell inside the footprint, gets tag 2.\<close>

definition carve_room :: "int \<Rightarrow> int \<Rightarrow> int \<Rightarrow> int \<Rightarrow> grid \<Rightarrow> error + grid" where
  "carve_room room_x room_y room_w room_h =
     efold (\<lambda>ry. efold (\<lambda>rx m. maze_set m ry rx 2) [room_x + 1..room_x + room_w - 2])
       [room_y + 1..room_y + room_h - 2]"

datatype side = Top | Bottom | Left | Right

text \<open>
  \<^verbatim>\<open>connect_room_to_maze\<close>. For a side and a running coordinate \<open>t\<close>: the test in
  front of the grid read, the cell \<open>(y, x)\<close> that is read and must hold tag 1, and
  the cell that then becomes a door (tag 3).
\<close>

definition side_guard :: "int \<Rightarrow> int \<Rightarrow> side \<Rightarrow> int \<Rightarrow> int \<Rightarrow> int \<Rightarrow> int \<Rightarrow> int \<Rightarrow> bool" where
  "side_guard w h sd room_x room_y room_w room_h t =
     (case sd of
        Top \<Rightarrow> room_y > 2 \<and> t \<ge> 0 \<and> t < w \<and> room_y - 2 \<ge> 0
      | Bottom \<Rightarrow> room_y + room_h < h - 2 \<and> t \<ge> 0 \<and> t < w \<and> room_y + room_h + 1 < h
      | Left \<Rightarrow> room_x > 2 \<and> t \<ge> 0 \<and> t < h \<and> room_x - 2 \<ge> 0
      | Right \<Rightarrow> room_x + room_w < w - 2 \<and> t \<ge> 0 \<and> t < h \<and> room_x + room_w + 1 < w)"

definition side_probe :: "side \<Rightarrow> int \<Rightarrow> int \<Rightarrow> int \<Rightarrow> int \<Rightarrow> int \<Rightarrow> int \<times> int" where
  "side_probe sd room_x room_y room_w room_h t =
     (case sd of
        Top \<Rightarrow> (room_y - 2, t)
      | Bottom \<Rightarrow> (room_y + room_h + 1, t)
      | Left \<Rightarrow> (t, room_x - 2)
      | Right \<Rightarrow> (t, room_x + room_w + 1))"

definition side_door :: "side \<Rightarrow> int \<Rightarrow> int \<Rightarrow> int \<Rightarrow> int \<Rightarrow> int \<Rightarrow> int \<times> int" where
  "side_door sd room_x room_y room_w room_h t =
     (case sd of
        Top \<Rightarrow> (room_y - 1, t)
      | Bottom \<Rightarrow> (room_y + room_h, t)
      | Left \<Rightarrow> (t, room_x - 1)
      | Right \<Rightarrow> (t, room_x + room_w))"

definition side_range :: "side \<Rightarrow> int \<Rightarrow> int \<Rightarrow> int \<Rightarrow> int \<Rightarrow> int list" where
  "side_range sd room_x room_y room_w room_h =
     (case sd of
        Top \<Rightarrow> py_range (room_x + 2) (room_x + room_w - 2) 2
      | Bottom \<Rightarrow> py_range (room_x + 2) (room_x + room_w - 2) 2
      | Left \<Rightarrow> py_range (room_y + 2) (room_y + room_h - 2) 2
      | Right \<Rightarrow> py_range (room_y + 2) (room_y + room_h - 2) 2)"

text \<open>The inner loop of one side: the first match gets the door, then \<^verbatim>\<open>break\<close>.\<close>

fun connect_side ::
  "int \<Rightarrow> int \<Rightarrow> side \<Rightarrow> int \<Rightarrow> int \<Rightarrow> int \<Rightarrow> int \<Rightarrow> int list \<Rightarrow> grid \<Rightarrow> error + (grid \<times> bool)" where
  "connect_side w h sd room_x room_y room_w room_h [] m = Inr (m, False)"
| "connect_side w h sd room_x room_y room_w room_h (t # ts) m =
     (if side_guard w h sd room_x room_y room_w room_h t
      then (case maze_get m (fst (side_probe sd room_x room_y room_w room_h t))
                            (snd (side_probe sd room_x room_y room_w room_h t)) of
              Inl e \<Rightarrow> Inl e
            | Inr c \<Rightarrow>
                if c = 1
                then (case maze_set m (fst (side_door sd room_x room_y room_w room_h t))
                                      (snd (side_door sd room_x room_y room_w room_h t)) 3 of
                        Inl e \<Rightarrow> Inl e
                      | Inr m' \<Rightarrow> Inr (m', True))
                else connect_side w h sd room_x room_y room_w room_h ts m)
      else connect_side w h sd room_x room_y room_w room_h ts m)"

text \<open>
  The loop over the shuffled sides. Its \<^verbatim>\<open>break\<close> on \<^verbatim>\<open>connections >= max_connections\<close>
  is modelled by skipping the remaining sides: the counter never decreases.
\<close>

definition connect_room_to_maze ::
  "int \<Rightarrow> int \<Rightarrow> int \<Rightarrow> side list \<Rightarrow> int \<Rightarrow> int \<Rightarrow> int \<Rightarrow> int \<Rightarrow> grid \<Rightarrow> error + grid" where
  "connect_room_to_maze w h max_connections sides room_x room_y room_w room_h m =
     (case efold (\<lambda>sd (m', connections).
                    if connections \<ge> max_connections then Inr (m', connections)
                    else (case connect_side w h sd room_x room_y room_w room_h
                                 (side_range sd room_x room_y room_w room_h) m' of
                            Inl e \<Rightarrow> Inl e
                          | Inr (m'', found) \<Rightarrow>
                              Inr (m'', if found then connections + 1 else connections)))
            sides (m, 0::int) of
        Inl e \<Rightarrow> Inl e
      | Inr (m', connections) \<Rightarrow> Inr m')"

text \<open>
  One candidate room of \<^verbatim>\<open>add_rooms\<close>: its four draws \<open>(x, y, width, height)\<close>,
  then the test and the carving. The second component of the state is the attribute \<^verbatim>\<open>self.rooms\<close>:
  \<open>None\<close> while the object has no such attribute, in which case
  \<^verbatim>\<open>self.rooms.append\<close> raises AttributeError.
\<close>

definition room_candidate :: "int \<Rightarrow> int \<Rightarrow> rng \<Rightarrow> nat \<Rightarrow> error + (int \<times> int \<times> int \<times> int)" where
  "room_candidate w h g i =
     (case randrange 15 26 2 (room_w_draw g i) of Inl e \<Rightarrow> Inl e | Inr room_w \<Rightarrow>
      case randrange 15 26 2 (room_h_draw g i) of Inl e \<Rightarrow> Inl e | Inr room_h \<Rightarrow>
      case randrange 5 (w - room_w - 5) 2 (room_x_draw g i) of Inl e \<Rightarrow> Inl e | Inr room_x \<Rightarrow>
      case randrange 5 (h - room_h - 5) 2 (room_y_draw g i) of Inl e \<Rightarrow> Inl e | Inr room_y \<Rightarrow>
        Inr (room_x, room_y, room_w, room_h))"

definition add_room ::
  "int \<Rightarrow> int \<Rightarrow> rng \<Rightarrow> nat \<Rightarrow> grid \<times> room list option \<Rightarrow> error + (grid \<times> room list option)" where
  "add_room w h g i st =
     (case room_candidate w h g i of
        Inl e \<Rightarrow> Inl e
      | Inr (room_x, room_y, room_w, room_h) \<Rightarrow>
      case count_walls (fst st) room_x room_y room_w room_h of Inl e \<Rightarrow> Inl e | Inr wall_count \<Rightarrow>
        if real_of_int wall_count > real_of_int (room_w * room_h) * 0.8
        then (case carve_room room_x room_y room_w room_h (fst st) of
                Inl e \<Rightarrow> Inl e
              | Inr m1 \<Rightarrow>
                  (case snd st of
                     None \<Rightarrow> Inl AttributeError
                   | Some rs \<Rightarrow>
                       (case connect_room_to_maze w h (randint 2 4 (room_links_draw g i))
                               (shuffle (sides_draw g i) [Top, Bottom, Left, Right])
                               room_x room_y room_w room_h m1 of
                          Inl e \<Rightarrow> Inl e
                        | Inr m2 \<Rightarrow>
                            Inr (m2, Some (rs @ [\<lparr>rm_x = room_x, rm_y = room_y,
                                   rm_width = room_w, rm_height = room_h,
                                   rm_center_x = room_x + room_w div 2,
                                   rm_center_y = room_y + room_h div 2\<rparr>])))))
        else Inr st)"

definition add_rooms ::
  "int \<Rightarrow> int \<Rightarrow> rng \<Rightarrow> grid \<times> room list option \<Rightarrow> error + (grid \<times> room list option)" where
  "add_rooms w h g = efold (add_room w h g) [0..<nat (randint 8 15 (num_rooms_draw g))]"

text \<open>The wall cells in the footprint of a candidate room.\<close>

definition wall_cells :: "grid \<Rightarrow> int \<Rightarrow> int \<Rightarrow> int \<Rightarrow> int \<Rightarrow> (int \<times> int) set" where
  "wall_cells m room_x room_y room_w room_h =
     {(x, y). room_x \<le> x \<and> x < room_x + room_w \<and> room_y \<le> y \<and> y < room_y + room_h
              \<and> maze_get m y x = Inr 0}"

text \<open>
  One attempt of \<^verbatim>\<open>add_random_connections\<close>; the \<^verbatim>\<open>and\<close> chains read the second
  neighbour only when the first one is open.
\<close>

definition both_open :: "grid \<Rightarrow> int \<times> int \<Rightarrow> int \<times> int \<Rightarrow> error + bool" where
  "both_open m a b =
     (case maze_get m (fst a) (snd a) of
        Inl e \<Rightarrow> Inl e
      | Inr c \<Rightarrow> if walkable c
                 then (case maze_get m (fst b) (snd b) of
                         Inl e \<Rightarrow> Inl e
                       | Inr c' \<Rightarrow> Inr (walkable c'))
                 else Inr False)"

definition add_connection ::
  "int \<Rightarrow> int \<Rightarrow> rng \<Rightarrow> int \<Rightarrow> nat \<Rightarrow> grid \<times> int \<Rightarrow> error + (grid \<times> int)" where
  "add_connection w h g max_connections t st =
     (if snd st \<ge> max_connections then Inr st
      else
       case randrange 2 (w - 2) 1 (conn_x_draw g t) of Inl e \<Rightarrow> Inl e | Inr x \<Rightarrow>
       case randrange 2 (h - 2) 1 (conn_y_draw g t) of Inl e \<Rightarrow> Inl e | Inr y \<Rightarrow>
       case maze_get (fst st) y x of Inl e \<Rightarrow> Inl e | Inr c \<Rightarrow>
         if c = 0
         then (case both_open (fst st) (y, x - 1) (y, x + 1) of
                 Inl e \<Rightarrow> Inl e
               | Inr horizontal \<Rightarrow>
                   if horizontal \<and> conn_h_coin g t < 0.3
                   then (case maze_set (fst st) y x 3 of
                           Inl e \<Rightarrow> Inl e
                         | Inr m' \<Rightarrow> Inr (m', snd st + 1))
                   else (case both_open (fst st) (y - 1, x) (y + 1, x) of
                           Inl e \<Rightarrow> Inl e
                         | Inr vertical \<Rightarrow>
                             if vertical \<and> conn_v_coin g t < 0.3
                             then (case maze_set (fst st) y x 3 of
                                     Inl e \<Rightarrow> Inl e
                                   | Inr m' \<Rightarrow> Inr (m', snd st + 1))
                             else Inr st))
         else Inr st)"

definition add_random_connections :: "int \<Rightarrow> int \<Rightarrow> rng \<Rightarrow> grid \<Rightarrow> error + grid" where
  "add_random_connections w h g m =
     (let max_connections = randint 15 25 (max_connections_draw g)
      in case efold (add_connection w h g max_connections)
                [0..<nat (max_connections * 3)] (m, 0) of
           Inl e \<Rightarrow> Inl e
         | Inr (m', connections_added) \<Rightarrow> Inr m')"

text \<open>
  \<^verbatim>\<open>generate_maze\<close>: the all-wall grid, the start block, the passages, the rooms, the
  extra connections. The second loop that stores 0 in every cell of the fresh grid
  changes nothing and is left out.
\<close>

definition generate_maze ::
  "int \<Rightarrow> int \<Rightarrow> rng \<Rightarrow> room list option \<Rightarrow> error + (grid \<times> room list option)" where
  "generate_maze w h g rooms0 =
     (let m0 = replicate (nat h) (replicate (nat w) 0);
          start_x = start_coord w;
          start_y = start_coord h
      in case open_block w h start_x start_y m0 of Inl e \<Rightarrow> Inl e | Inr m1 \<Rightarrow>
         case carve_passages w h (dirs_draw g) 0 m1 [(start_x, start_y)] of
           Inl e \<Rightarrow> Inl e | Inr m2 \<Rightarrow>
         case add_rooms w h g (m2, rooms0) of Inl e \<Rightarrow> Inl e | Inr (m3, rooms1) \<Rightarrow>
         case add_random_connections w h g m3 of Inl e \<Rightarrow> Inl e | Inr m4 \<Rightarrow>
           Inr (m4, rooms1))"

section \<open>Monsters and treasures\<close>

text \<open>
  A dictionary is an association list in insertion order; \<^verbatim>\<open>d[k] = v\<close> is
  \<open>AList.update\<close>, \<^verbatim>\<open>k in d\<close> is \<open>has_key\<close>. \<^verbatim>\<open>random.choice\<close> indexes the sequence
  with its draw.
\<close>

definition has_key :: "('k \<times> 'v) list \<Rightarrow> 'k \<Rightarrow> bool" where
  "has_key d k \<longleftrightarrow> k \<in> set (map fst d)"

definition choice :: "'a list \<Rightarrow> nat \<Rightarrow> 'a" where
  "choice xs r = xs ! (r mod length xs)"

text \<open>The monster names of \<^verbatim>\<open>get_random_monster\<close>, written without their accents.\<close>

definition monster_names :: "string list" where
  "monster_names = [''sarkany'', ''troll'', ''boszorkany'']"

text \<open>\<^verbatim>\<open>valid_positions\<close>: the open cells inside the border, row by row.\<close>

definition valid_positions :: "int \<Rightarrow> int \<Rightarrow> grid \<Rightarrow> error + (int \<times> int) list" where
  "valid_positions w h m =
     efold (\<lambda>y. efold (\<lambda>x acc.
              case maze_get m y x of
                Inl e \<Rightarrow> Inl e
              | Inr c \<Rightarrow> Inr (if walkable c then acc @ [(x, y)] else acc))
            [1..w - 2])
       [1..h - 2] []"

definition too_close :: "((int \<times> int) \<times> monster) list \<Rightarrow> int \<Rightarrow> int \<Rightarrow> bool" where
  "too_close ms x z \<longleftrightarrow> list_ex (\<lambda>kv. \<bar>x - fst (fst kv)\<bar> + \<bar>z - snd (fst kv)\<bar> < 3) ms"

text \<open>
  One position of the placement loop of \<^verbatim>\<open>place_monsters\<close>, with its index in the
  shuffled list; the \<^verbatim>\<open>break\<close> on \<^verbatim>\<open>placed >= num_monsters\<close> skips the rest.
\<close>

definition place_monster ::
  "grid \<Rightarrow> rng \<Rightarrow> int \<Rightarrow> nat \<times> (int \<times> int)
     \<Rightarrow> ((int \<times> int) \<times> monster) list \<times> int \<Rightarrow> error + (((int \<times> int) \<times> monster) list \<times> int)" where
  "place_monster m g num_monsters ixz st =
     (let i = fst ixz; x = fst (snd ixz); z = snd (snd ixz)
      in if snd st \<ge> num_monsters then Inr st
         else if too_close (fst st) x z then Inr st
         else (case maze_get m z x of
                 Inl e \<Rightarrow> Inl e
               | Inr c \<Rightarrow>
                   (let health_bonus = (if c = 2 then randint 1 2 (monster_bonus_draw g i) else 0)
                    in Inr (AList.update (x, z)
                              \<lparr>mon_name = choice monster_names (monster_kind_draw g i),
                               mon_defeated = False,
                               mon_health = randint 2 4 (monster_health_draw g i) + health_bonus\<rparr>
                              (fst st),
                            snd st + 1))))"

definition place_monsters :: "maze_map \<Rightarrow> rng \<Rightarrow> error + ((int \<times> int) \<times> monster) list" where
  "place_monsters mm g =
     (let num_monsters = randint 20 35 (num_monsters_draw g)
      in case valid_positions (width mm) (height mm) (maze mm) of
           Inl e \<Rightarrow> Inl e
         | Inr positions \<Rightarrow>
             (let shuffled = shuffle (monster_order_draw g) positions
              in case efold (place_monster (maze mm) g num_monsters)
                        (zip [0..<length shuffled] shuffled) ([], 0) of
                   Inl e \<Rightarrow> Inl e
                 | Inr (ms, placed) \<Rightarrow> Inr ms))"

datatype location_type = RoomCenter | DeadEnd | RandomSpot

definition room_centers :: "maze_map \<Rightarrow> (int \<times> int \<times> location_type) list" where
  "room_centers mm =
     map (\<lambda>r. (rm_center_x r, rm_center_y r, RoomCenter))
       (filter (\<lambda>r. \<not> has_key (monsters mm) (rm_center_x r, rm_center_y r)) (rooms mm))"

text \<open>The open cells among the 8 neighbours of \<open>(x, y)\<close>.\<close>

definition adjacent_floors :: "int \<Rightarrow> int \<Rightarrow> grid \<Rightarrow> int \<Rightarrow> int \<Rightarrow> error + int" where
  "adjacent_floors w h m x y =
     efold (\<lambda>dy. efold (\<lambda>dx n.
              if dy = 0 \<and> dx = 0 then Inr n
              else if 0 \<le> x + dx \<and> x + dx < w \<and> 0 \<le> y + dy \<and> y + dy < h
                   then (case maze_get m (y + dy) (x + dx) of
                           Inl e \<Rightarrow> Inl e
                         | Inr c \<Rightarrow> Inr (if walkable c then n + 1 else n))
                   else Inr n)
            [-1, 0, 1])
       [-1, 0, 1] 0"

definition dead_ends :: "int \<Rightarrow> int \<Rightarrow> grid \<Rightarrow> error + (int \<times> int \<times> location_type) list" where
  "dead_ends w h m =
     efold (\<lambda>y. efold (\<lambda>x acc.
              case maze_get m y x of
                Inl e \<Rightarrow> Inl e
              | Inr c \<Rightarrow>
                  if c \<in> set [1, 3]
                  then (case adjacent_floors w h m x y of
                          Inl e \<Rightarrow> Inl e
                        | Inr n \<Rightarrow> Inr (if n \<le> 2 then acc @ [(x, y, DeadEnd)] else acc))
                  else Inr acc)
            [1..w - 2])
       [1..h - 2] []"

definition random_spots ::
  "maze_map \<Rightarrow> rng \<Rightarrow> error + (int \<times> int \<times> location_type) list" where
  "random_spots mm g =
     efold (\<lambda>y. efold (\<lambda>x acc.
              case maze_get (maze mm) y x of
                Inl e \<Rightarrow> Inl e
              | Inr c \<Rightarrow>
                  Inr (if walkable c \<and> \<not> has_key (monsters mm) (x, y) \<and> treasure_coin g x y < 0.1
                       then acc @ [(x, y, RandomSpot)] else acc))
            [1..width mm - 2])
       [1..height mm - 2] []"

definition treasure_kinds :: "location_type \<Rightarrow> string list" where
  "treasure_kinds loc =
     (case loc of
        RoomCenter \<Rightarrow> [''mega_health'', ''weapon_upgrade'', ''points'', ''mega_health'']
      | DeadEnd \<Rightarrow> [''health'', ''weapon_upgrade'', ''points'']
      | RandomSpot \<Rightarrow> [''health'', ''points'', ''health''])"

text \<open>One candidate of the placement loop of \<^verbatim>\<open>place_treasures\<close>.\<close>

definition place_treasure ::
  "((int \<times> int) \<times> monster) list \<Rightarrow> rng \<Rightarrow> int \<Rightarrow> nat \<times> (int \<times> int \<times> location_type)
     \<Rightarrow> ((int \<times> int) \<times> treasure) list \<times> int \<Rightarrow> ((int \<times> int) \<times> treasure) list \<times> int" where
  "place_treasure ms g num_treasures ic st =
     (let i = fst ic; x = fst (snd ic); z = fst (snd (snd ic)); loc = snd (snd (snd ic))
      in if snd st \<ge> num_treasures then st
         else if \<not> has_key ms (x, z) \<and> \<not> has_key (fst st) (x, z)
              then (AList.update (x, z)
                      \<lparr>tr_opened = False,
                       tr_contents = choice (treasure_kinds loc) (treasure_kind_draw g i)\<rparr>
                      (fst st),
                    snd st + 1)
              else st)"

definition place_treasures :: "maze_map \<Rightarrow> rng \<Rightarrow> error + ((int \<times> int) \<times> treasure) list" where
  "place_treasures mm g =
     (let num_treasures = randint 15 25 (num_treasures_draw g)
      in case dead_ends (width mm) (height mm) (maze mm) of Inl e \<Rightarrow> Inl e | Inr ends \<Rightarrow>
         case random_spots mm g of Inl e \<Rightarrow> Inl e | Inr spots \<Rightarrow>
           (let treasure_positions = shuffle (treasure_order_draw g) (room_centers mm @ ends @ spots)
            in Inr (fst (fold (place_treasure (monsters mm) g num_treasures)
                           (zip [0..<length treasure_positions] treasure_positions) ([], 0)))))"

section \<open>MazeMap.__init__\<close>

text \<open>
  The grid is generated while the object has no \<^verbatim>\<open>rooms\<close> attribute yet
  (\<^verbatim>\<open>self.rooms = []\<close> comes after \<^verbatim>\<open>self.maze = self.generate_maze()\<close>), then the
  room list is set to the empty list and the entities are placed.
\<close>

definition maze_map_init :: "int \<Rightarrow> int \<Rightarrow> real \<Rightarrow> rng \<Rightarrow> error + maze_map" where
  "maze_map_init width0 height0 base g =
     (let w = effective_dim width0; h = effective_dim height0
      in case generate_maze w h g None of
           Inl e \<Rightarrow> Inl e
         | Inr (m, rooms1) \<Rightarrow>
             (let mm0 = \<lparr>width = w, height = h, base_level = base, wall_height = 8,
                         maze = m, rooms = [], monsters = [], treasures = []\<rparr>
              in case place_monsters mm0 g of
                   Inl e \<Rightarrow> Inl e
                 | Inr ms \<Rightarrow>
                     (case place_treasures (mm0\<lparr>monsters := ms\<rparr>) g of
                        Inl e \<Rightarrow> Inl e
                      | Inr ts \<Rightarrow> Inr (mm0\<lparr>monsters := ms, treasures := ts\<rparr>))))"

section \<open>Camera.project_3d_to_2d\<close>

text \<open>
  \<^verbatim>\<open>math.radians\<close>, and \<^verbatim>\<open>int(x)\<close> on a float, which truncates towards zero.
  A float division by zero raises ZeroDivisionError.
\<close>

definition radians :: "real \<Rightarrow> real" where
  "radians d = d * pi / 180"

definition py_int :: "real \<Rightarrow> int" where
  "py_int r = (if 0 \<le> r then \<lfloor>r\<rfloor> else \<lceil>r\<rceil>)"

definition project_3d_to_2d ::
  "camera \<Rightarrow> vector3d \<Rightarrow> vector3d \<Rightarrow> real \<Rightarrow> real \<Rightarrow> int \<Rightarrow> int
     \<Rightarrow> error + (int \<times> int \<times> real) option" where
  "project_3d_to_2d cam point player_pos player_rot_x player_rot_y screen_width screen_height =
     (let rel_x = vec_x point - vec_x player_pos;
          rel_y = vec_y point - vec_y player_pos;
          rel_z = vec_z point - vec_z player_pos;
          cos_y = cos (radians (- player_rot_y));
          sin_y = sin (radians (- player_rot_y));
          rotated_x = rel_x * cos_y - rel_z * sin_y;
          rotated_z = rel_x * sin_y + rel_z * cos_y;
          cos_x = cos (radians player_rot_x);
          sin_x = sin (radians player_rot_x);
          final_y = rel_y * cos_x - rotated_z * sin_x;
          final_z = rel_y * sin_x + rotated_z * cos_x
      in if final_z \<le> 0.001 then Inr None
         else (let fov_factor = tan (radians (fov cam / 2))
               in if final_z * fov_factor = 0 then Inl ZeroDivisionError
                  else (let screen_x = (rotated_x / (final_z * fov_factor))
                                          * (real_of_int screen_width / 2)
                                        + real_of_int screen_width / 2;
                            screen_y = (- final_y / (final_z * fov_factor))
                                          * (real_of_int screen_height / 2)
                                        + real_of_int screen_height / 2
                        in Inr (Some (py_int screen_x, py_int screen_y, final_z)))))"

section \<open>Renderer: wall and floor quads\<close>

text \<open>
  The innermost part of \<^verbatim>\<open>render_maze_walls\<close>, reached for a face of a wall cell
  that was not culled: the four vertices of the face of wall cell \<open>(x, z)\<close> towards
  \<open>(dx, dz)\<close>, then the loop that projects them. A vertex is kept when it projects
  and its depth is above 0.001; its screen coordinates are clamped to 200 pixels
  around the screen. \<open>wall_quad\<close> returns the entry for \<^verbatim>\<open>wall_quads\<close> when at least
  two vertices were kept. The culls and the loops around it follow below
  (\<open>wall_cell\<close>, \<open>render_maze_walls\<close>).
\<close>

definition wall_face_vertices :: "maze_map \<Rightarrow> int \<Rightarrow> int \<Rightarrow> int \<Rightarrow> int \<Rightarrow> vector3d list" where
  "wall_face_vertices mm x z dx dz =
     (let floor_level = base_level mm; top = base_level mm + wall_height mm;
          V = (\<lambda>a b c. \<lparr>vec_x = a, vec_y = b, vec_z = c\<rparr>);
          x0 = real_of_int x; x1 = real_of_int (x + 1);
          z0 = real_of_int z; z1 = real_of_int (z + 1)
      in if dx = 0
         then (if dz = 1
               then [V x0 floor_level z1, V x1 floor_level z1, V x1 top z1, V x0 top z1]
               else [V x1 floor_level z0, V x0 floor_level z0, V x0 top z0, V x1 top z0])
         else (if dx = 1
               then [V x1 floor_level z1, V x1 floor_level z0, V x1 top z0, V x1 top z1]
               else [V x0 floor_level z0, V x0 floor_level z1, V x0 top z1, V x0 top z0]))"

definition project_wall_vertex ::
  "camera \<Rightarrow> player \<Rightarrow> int \<Rightarrow> int \<Rightarrow> vector3d
     \<Rightarrow> (int \<times> int) list \<times> real list \<Rightarrow> error + ((int \<times> int) list \<times> real list)" where
  "project_wall_vertex cam p screen_w screen_h vertex acc =
     (case project_3d_to_2d cam vertex (position p) (rotation_x p) (rotation_y p) screen_w screen_h of
        Inl e \<Rightarrow> Inl e
      | Inr None \<Rightarrow> Inr acc
      | Inr (Some (sx, sy, depth)) \<Rightarrow>
          if depth > 0.001
          then (let clamped_x = max (-200) (min (screen_w + 200) sx);
                    clamped_y = max (-200) (min (screen_h + 200) sy)
                in Inr (fst acc @ [(clamped_x, clamped_y)], snd acc @ [depth]))
          else Inr acc)"

definition wall_quad ::
  "camera \<Rightarrow> player \<Rightarrow> int \<Rightarrow> int \<Rightarrow> vector3d list
     \<Rightarrow> error + ((int \<times> int) list \<times> (int \<times> int \<times> int) \<times> real) option" where
  "wall_quad cam p screen_w screen_h vertices =
     (case efold (project_wall_vertex cam p screen_w screen_h) vertices ([], []) of
        Inl e \<Rightarrow> Inl e
      | Inr (screen_vertices, distances) \<Rightarrow>
          if length screen_vertices \<ge> 2
          then (let avg_distance = sum_list distances / 4;
                    lighting_factor = max 0.4 (min 1.0 (1.0 - avg_distance / 25));
                    wall_color = (py_int (140 * lighting_factor),
                                  py_int ((140 - 30) * lighting_factor),
                                  py_int ((140 - 60) * lighting_factor))
                in Inr (Some (screen_vertices, wall_color, avg_distance)))
          else Inr None)"

text \<open>
  The innermost part of \<^verbatim>\<open>render_ground_plane\<close>, for one sampled cell \<open>(x, z)\<close>
  (grid size 2; the loops around it are \<open>render_ground_plane\<close> below): a corner is
  kept when it projects with a depth strictly between 0.001 and 120; the quad is
  appended to \<^verbatim>\<open>ground_quads\<close> when all four corners were kept and the average depth
  is below 80. \<open>tag\<close> is the cell's tag, which picks the colour.
\<close>

definition floor_corners :: "maze_map \<Rightarrow> int \<Rightarrow> int \<Rightarrow> vector3d list" where
  "floor_corners mm x z =
     (let floor_y = base_level mm - 1.0;
          V = (\<lambda>a b c. \<lparr>vec_x = a, vec_y = b, vec_z = c\<rparr>)
      in [V (real_of_int x) floor_y (real_of_int z),
          V (real_of_int (x + 2)) floor_y (real_of_int z),
          V (real_of_int (x + 2)) floor_y (real_of_int (z + 2)),
          V (real_of_int x) floor_y (real_of_int (z + 2))])"

definition project_floor_corner ::
  "camera \<Rightarrow> player \<Rightarrow> int \<Rightarrow> int \<Rightarrow> vector3d
     \<Rightarrow> (int \<times> int) list \<times> real \<Rightarrow> error + ((int \<times> int) list \<times> real)" where
  "project_floor_corner cam p screen_w screen_h corner acc =
     (case project_3d_to_2d cam corner (position p) (rotation_x p) (rotation_y p) screen_w screen_h of
        Inl e \<Rightarrow> Inl e
      | Inr None \<Rightarrow> Inr acc
      | Inr (Some (sx, sy, depth)) \<Rightarrow>
          if depth > 0.001 \<and> depth < 120
          then Inr (fst acc @ [(sx, sy)], snd acc + depth)
          else Inr acc)"

definition floor_quad ::
  "camera \<Rightarrow> player \<Rightarrow> int \<Rightarrow> int \<Rightarrow> int \<Rightarrow> vector3d list
     \<Rightarrow> error + ((int \<times> int) list \<times> real \<times> (int \<times> int \<times> int)) option" where
  "floor_quad cam p screen_w screen_h tag corners =
     (case efold (project_floor_corner cam p screen_w screen_h) corners ([], 0) of
        Inl e \<Rightarrow> Inl e
      | Inr (screen_corners, total_distance) \<Rightarrow>
          if length screen_corners = 4
          then (let avg_distance = total_distance / 4
                in if avg_distance < 80
                   then Inr (Some (screen_corners, avg_distance,
                                   (if tag = 2 then (140, 170, 200) else (120, 160, 120))))
                   else Inr None)
          else Inr None)"

text \<open>The vertices of a list that project with a depth above 0.001.\<close>

definition projects :: "camera \<Rightarrow> player \<Rightarrow> int \<Rightarrow> int \<Rightarrow> vector3d \<Rightarrow> bool" where
  "projects cam p screen_w screen_h v \<longleftrightarrow>
     (case project_3d_to_2d cam v (position p) (rotation_x p) (rotation_y p) screen_w screen_h of
        Inr (Some (sx, sy, depth)) \<Rightarrow> depth > 0.001
      | _ \<Rightarrow> False)"

definition projects_floor :: "camera \<Rightarrow> player \<Rightarrow> int \<Rightarrow> int \<Rightarrow> vector3d \<Rightarrow> bool" where
  "projects_floor cam p screen_w screen_h v \<longleftrightarrow>
     (case project_3d_to_2d cam v (position p) (rotation_x p) (rotation_y p) screen_w screen_h of
        Inr (Some (sx, sy, depth)) \<Rightarrow> depth > 0.001 \<and> depth < 120
      | _ \<Rightarrow> False)"

text \<open>The depth \<^verbatim>\<open>final_z\<close> that \<^verbatim>\<open>project_3d_to_2d\<close> computes for a point.\<close>

definition view_depth :: "vector3d \<Rightarrow> vector3d \<Rightarrow> real \<Rightarrow> real \<Rightarrow> real" where
  "view_depth point player_pos player_rot_x player_rot_y =
     (let rel_x = vec_x point - vec_x player_pos;
          rel_y = vec_y point - vec_y player_pos;
          rel_z = vec_z point - vec_z player_pos;
          rotated_z = rel_x * sin (radians (- player_rot_y)) + rel_z * cos (radians (- player_rot_y))
      in rel_y * sin (radians player_rot_x) + rotated_z * cos (radians player_rot_x))"

text \<open>
  \<^verbatim>\<open>is_wall_occluded\<close>: the ray from the player towards a wall cell, sampled every
  0.5 units from the first sample on. A sample inside the map that lies in a wall
  cell other than the target makes the target occluded (\<^verbatim>\<open>return True\<close>).
  \<^verbatim>\<open>(a)**0.5\<close> on a non-negative float is the square root.
\<close>

fun occlusion_ray ::
  "maze_map \<Rightarrow> int \<Rightarrow> int \<Rightarrow> vector3d \<Rightarrow> real \<Rightarrow> real \<Rightarrow> int list \<Rightarrow> error + bool" where
  "occlusion_ray mm wall_x wall_z player_pos dx dz [] = Inr False"
| "occlusion_ray mm wall_x wall_z player_pos dx dz (i # rest) =
     (let check_x = vec_x player_pos + dx * (real_of_int i * 0.5);
          check_z = vec_z player_pos + dz * (real_of_int i * 0.5);
          maze_x = py_int check_x;
          maze_z = py_int check_z
      in if 0 \<le> maze_x \<and> maze_x < width mm \<and> 0 \<le> maze_z \<and> maze_z < height mm
         then (case maze_get (maze mm) maze_z maze_x of
                 Inl e \<Rightarrow> Inl e
               | Inr c \<Rightarrow>
                   if c = 0 \<and> (\<bar>real_of_int (maze_x - wall_x)\<bar> > 0.5
                               \<or> \<bar>real_of_int (maze_z - wall_z)\<bar> > 0.5)
                   then Inr True
                   else occlusion_ray mm wall_x wall_z player_pos dx dz rest)
         else occlusion_ray mm wall_x wall_z player_pos dx dz rest)"

definition is_wall_occluded :: "maze_map \<Rightarrow> int \<Rightarrow> int \<Rightarrow> vector3d \<Rightarrow> error + bool" where
  "is_wall_occluded mm wall_x wall_z player_pos =
     (let dx = real_of_int wall_x - vec_x player_pos;
          dz = real_of_int wall_z - vec_z player_pos;
          distance_to_wall = sqrt (dx * dx + dz * dz)
      in if distance_to_wall < 3.0 then Inr False
         else if distance_to_wall = 0 then Inr False
         else occlusion_ray mm wall_x wall_z player_pos
                (dx / distance_to_wall) (dz / distance_to_wall)
                [1..py_int (distance_to_wall / 0.5) - 1])"

text \<open>
  \<^verbatim>\<open>render_maze_walls\<close> up to the sort: the list \<^verbatim>\<open>wall_quads\<close> it builds. Every wall
  cell within 25 cells of the player is examined; a cell further than 30 units away
  or occluded is skipped (\<^verbatim>\<open>continue\<close>); each of its faces towards an open cell is
  projected by \<open>wall_quad\<close> and appended when that keeps it. Afterwards the list is
  sorted by distance and each entry is handed to \<^verbatim>\<open>pygame.draw.polygon\<close>.
\<close>

type_synonym wall_entry = "(int \<times> int) list \<times> (int \<times> int \<times> int) \<times> real"

definition face_directions :: "(int \<times> int) list" where
  "face_directions = [(0, 1), (1, 0), (0, -1), (-1, 0)]"

definition wall_face ::
  "camera \<Rightarrow> player \<Rightarrow> int \<Rightarrow> int \<Rightarrow> maze_map \<Rightarrow> int \<Rightarrow> int \<Rightarrow> int \<times> int
     \<Rightarrow> wall_entry list \<Rightarrow> error + wall_entry list" where
  "wall_face cam p screen_w screen_h mm x z d wall_quads =
     (let adj_x = x + fst d; adj_z = z + snd d
      in if 0 \<le> adj_x \<and> adj_x < width mm \<and> 0 \<le> adj_z \<and> adj_z < height mm
         then (case maze_get (maze mm) adj_z adj_x of
                 Inl e \<Rightarrow> Inl e
               | Inr c \<Rightarrow>
                   if c \<noteq> 0
                   then (case wall_quad cam p screen_w screen_h
                                 (wall_face_vertices mm x z (fst d) (snd d)) of
                           Inl e \<Rightarrow> Inl e
                         | Inr None \<Rightarrow> Inr wall_quads
                         | Inr (Some q) \<Rightarrow> Inr (wall_quads @ [q]))
                   else Inr wall_quads)
         else Inr wall_quads)"

definition wall_cell ::
  "camera \<Rightarrow> player \<Rightarrow> int \<Rightarrow> int \<Rightarrow> maze_map \<Rightarrow> int \<Rightarrow> int
     \<Rightarrow> wall_entry list \<Rightarrow> error + wall_entry list" where
  "wall_cell cam p screen_w screen_h mm z x wall_quads =
     (case maze_get (maze mm) z x of
        Inl e \<Rightarrow> Inl e
      | Inr c \<Rightarrow>
          if c = 0
          then (let distance_to_wall =
                      sqrt ((real_of_int x - vec_x (position p))\<^sup>2
                            + (real_of_int z - vec_z (position p))\<^sup>2)
                in if distance_to_wall > 25 + 5 then Inr wall_quads
                   else (case is_wall_occluded mm x z (position p) of
                           Inl e \<Rightarrow> Inl e
                         | Inr occluded \<Rightarrow>
                             if occluded then Inr wall_quads
                             else efold (wall_face cam p screen_w screen_h mm x z)
                                    face_directions wall_quads))
          else Inr wall_quads)"

definition render_maze_walls ::
  "camera \<Rightarrow> player \<Rightarrow> int \<Rightarrow> int \<Rightarrow> maze_map \<Rightarrow> error + wall_entry list" where
  "render_maze_walls cam p screen_w screen_h mm =
     (let player_x = py_int (vec_x (position p));
          player_z = py_int (vec_z (position p));
          render_range = 25
      in efold (\<lambda>z. efold (wall_cell cam p screen_w screen_h mm z)
                    [max 0 (player_x - render_range)
                       ..min (width mm) (player_x + render_range) - 1])
           [max 0 (player_z - render_range)..min (height mm) (player_z + render_range) - 1]
           [])"

text \<open>
  \<^verbatim>\<open>render_ground_plane\<close> up to the sort: the list \<^verbatim>\<open>ground_quads\<close>. The cells are
  sampled every 2 units within 35 units of the player; a sample whose centre cell
  is walkable is projected by \<open>floor_quad\<close> and appended when that keeps it.
\<close>

type_synonym ground_entry = "(int \<times> int) list \<times> real \<times> (int \<times> int \<times> int)"

definition ground_cell ::
  "camera \<Rightarrow> player \<Rightarrow> int \<Rightarrow> int \<Rightarrow> maze_map \<Rightarrow> int \<Rightarrow> int
     \<Rightarrow> ground_entry list \<Rightarrow> error + ground_entry list" where
  "ground_cell cam p screen_w screen_h mm z x ground_quads =
     (let maze_x = max 0 (min (width mm - 1) (py_int (real_of_int x + 2 / 2)));
          maze_z = max 0 (min (height mm - 1) (py_int (real_of_int z + 2 / 2)))
      in if 0 \<le> maze_x \<and> maze_x < width mm \<and> 0 \<le> maze_z \<and> maze_z < height mm
         then (case maze_get (maze mm) maze_z maze_x of
                 Inl e \<Rightarrow> Inl e
               | Inr c \<Rightarrow>
                   if walkable c
                   then (case floor_quad cam p screen_w screen_h c (floor_corners mm x z) of
                           Inl e \<Rightarrow> Inl e
                         | Inr None \<Rightarrow> Inr ground_quads
                         | Inr (Some q) \<Rightarrow> Inr (ground_quads @ [q]))
                   else Inr ground_quads)
         else Inr ground_quads)"

definition render_ground_plane ::
  "camera \<Rightarrow> player \<Rightarrow> int \<Rightarrow> int \<Rightarrow> maze_map \<Rightarrow> error + ground_entry list" where
  "render_ground_plane cam p screen_w screen_h mm =
     (let render_distance = 35;
          start_x = max 0 (py_int (vec_x (position p) - render_distance));
          end_x = min (width mm) (py_int (vec_x (position p) + render_distance));
          start_z = max 0 (py_int (vec_z (position p) - render_distance));
          end_z = min (height mm) (py_int (vec_z (position p) + render_distance))
      in efold (\<lambda>z. efold (ground_cell cam p screen_w screen_h mm z)
                    (py_range start_x (end_x - 2) 2))
           (py_range start_z (end_z - 2) 2) [])"

section \<open>Player movement\<close>

text \<open>
  \<^verbatim>\<open>can_move_to\<close>: inside the map minus a buffer of 0.2, and the cell under the
  target is walkable.
\<close>

definition can_move_to :: "real \<Rightarrow> real \<Rightarrow> maze_map \<Rightarrow> error + bool" where
  "can_move_to new_x new_z mm =
     (let buffer = 0.2
      in if \<not> (buffer \<le> new_x \<and> new_x < real_of_int (width mm) - buffer
                \<and> buffer \<le> new_z \<and> new_z < real_of_int (height mm) - buffer)
         then Inr False
         else (case maze_get (maze mm) (py_int new_z) (py_int new_x) of
                 Inl e \<Rightarrow> Inl e
               | Inr c \<Rightarrow> Inr (walkable c)))"

text \<open>
  The body the four movement methods share, after each has computed its target:
  the direct move, else the slide along x, else the slide along z, else nothing.
\<close>

definition move_with_sliding :: "real \<Rightarrow> real \<Rightarrow> player \<Rightarrow> maze_map \<Rightarrow> error + player" where
  "move_with_sliding new_x new_z p mm =
     (case can_move_to new_x new_z mm of
        Inl e \<Rightarrow> Inl e
      | Inr True \<Rightarrow> Inr (p\<lparr>position := (position p)\<lparr>vec_x := new_x, vec_z := new_z\<rparr>\<rparr>)
      | Inr False \<Rightarrow>
          (case can_move_to new_x (vec_z (position p)) mm of
             Inl e \<Rightarrow> Inl e
           | Inr True \<Rightarrow> Inr (p\<lparr>position := (position p)\<lparr>vec_x := new_x\<rparr>\<rparr>)
           | Inr False \<Rightarrow>
               (case can_move_to (vec_x (position p)) new_z mm of
                  Inl e \<Rightarrow> Inl e
                | Inr True \<Rightarrow> Inr (p\<lparr>position := (position p)\<lparr>vec_z := new_z\<rparr>\<rparr>)
                | Inr False \<Rightarrow> Inr p)))"

datatype move = Forward | Backward | StrafeLeft | StrafeRight

text \<open>
  The direction of each method from \<^verbatim>\<open>cos_y = cos(radians(-rotation_y))\<close> and
  \<^verbatim>\<open>sin_y\<close>: forward \<open>(sin_y, cos_y)\<close>, backward \<open>(-sin_y, -cos_y)\<close>, left
  \<open>(-cos_y, sin_y)\<close>, right \<open>(cos_y, -sin_y)\<close>.
\<close>

definition move_direction :: "move \<Rightarrow> player \<Rightarrow> real \<times> real" where
  "move_direction mv p =
     (let cos_y = cos (radians (- rotation_y p));
          sin_y = sin (radians (- rotation_y p))
      in case mv of
           Forward \<Rightarrow> (sin_y, cos_y)
         | Backward \<Rightarrow> (- sin_y, - cos_y)
         | StrafeLeft \<Rightarrow> (- cos_y, sin_y)
         | StrafeRight \<Rightarrow> (cos_y, - sin_y))"

definition move_target :: "move \<Rightarrow> player \<Rightarrow> real \<times> real" where
  "move_target mv p =
     (vec_x (position p) + fst (move_direction mv p) * speed p,
      vec_z (position p) + snd (move_direction mv p) * speed p)"

definition move_forward :: "player \<Rightarrow> maze_map \<Rightarrow> error + player" where
  "move_forward p mm =
     move_with_sliding (fst (move_target Forward p)) (snd (move_target Forward p)) p mm"

definition move_backward :: "player \<Rightarrow> maze_map \<Rightarrow> error + player" where
  "move_backward p mm =
     move_with_sliding (fst (move_target Backward p)) (snd (move_target Backward p)) p mm"

definition strafe_left :: "player \<Rightarrow> maze_map \<Rightarrow> error + player" where
  "strafe_left p mm =
     move_with_sliding (fst (move_target StrafeLeft p)) (snd (move_target StrafeLeft p)) p mm"

definition strafe_right :: "player \<Rightarrow> maze_map \<Rightarrow> error + player" where
  "strafe_right p mm =
     move_with_sliding (fst (move_target StrafeRight p)) (snd (move_target StrafeRight p)) p mm"

definition do_move :: "move \<Rightarrow> player \<Rightarrow> maze_map \<Rightarrow> error + player" where
  "do_move mv p mm =
     (case mv of Forward \<Rightarrow> move_forward p mm | Backward \<Rightarrow> move_backward p mm
               | StrafeLeft \<Rightarrow> strafe_left p mm | StrafeRight \<Rightarrow> strafe_right p mm)"

text \<open>The same movement operation executed \<open>n\<close> times in a row.\<close>

fun repeat_move :: "move \<Rightarrow> nat \<Rightarrow> player \<Rightarrow> maze_map \<Rightarrow> error + player" where
  "repeat_move mv 0 p mm = Inr p"
| "repeat_move mv (Suc n) p mm =
     (case do_move mv p mm of Inl e \<Rightarrow> Inl e | Inr p' \<Rightarrow> repeat_move mv n p' mm)"

text \<open>
  A target is blocked when it is outside the buffered bounds or the cell under it
  is a wall.
\<close>

definition blocked_target :: "maze_map \<Rightarrow> real \<Rightarrow> real \<Rightarrow> bool" where
  "blocked_target mm tx tz \<longleftrightarrow>
     \<not> (0.2 \<le> tx \<and> tx < real_of_int (width mm) - 0.2
        \<and> 0.2 \<le> tz \<and> tz < real_of_int (height mm) - 0.2)
     \<or> maze_get (maze mm) (py_int tz) (py_int tx) = Inr 0"

section \<open>Game3D: the forced spawn area\<close>

text \<open>
  Method 4 of \<^verbatim>\<open>Game3D.__init__\<close>: the 5x5 area around the spawn cell is forced
  to tag 2, clipped to the grid. \<^verbatim>\<open>range(-2, 3)\<close> is \<open>spawn_offsets\<close>.
\<close>

definition spawn_offsets :: "int list" where
  "spawn_offsets = [-2..2]"

definition force_spawn_area :: "int \<Rightarrow> int \<Rightarrow> int \<Rightarrow> int \<Rightarrow> grid \<Rightarrow> error + grid" where
  "force_spawn_area w h spawn_x spawn_z =
     efold (\<lambda>dx. efold (\<lambda>dz m.
        if 0 \<le> spawn_x + dx \<and> spawn_x + dx < w \<and> 0 \<le> spawn_z + dz \<and> spawn_z + dz < h
        then maze_set m (spawn_z + dz) (spawn_x + dx) 2 else Inr m) spawn_offsets) spawn_offsets"

section \<open>Concrete states used in the examples\<close>

text \<open>
  A 3x3 map whose only open cell is the centre, and a player in the corner of that
  cell looking diagonally at the walls.
\<close>

definition walled_in :: maze_map where
  "walled_in = \<lparr>width = 3, height = 3, base_level = 0, wall_height = 8,
     maze = [[0, 0, 0], [0, 1, 0], [0, 0, 0]], rooms = [], monsters = [], treasures = []\<rparr>"


definition corner_player :: player where
  "corner_player = (player_init (19/10) (19/10))\<lparr>rotation_y := - 45\<rparr>"

text \<open>
  A player in the open cell of that map looking straight ahead, and one looking up
  by 45 degrees.
\<close>

definition looking_ahead_player :: player where
  "looking_ahead_player = player_init (3/2) (11/10)"

definition looking_up_player :: player where
  "looking_up_player = (player_init (3/2) (11/10))\<lparr>rotation_x := 45\<rparr>"

text \<open>The oracle whose draws are all zero.\<close>

definition zero_rng :: rng where
  "zero_rng = \<lparr>dirs_draw = (\<lambda>k i. 0), num_rooms_draw = 0,
     room_w_draw = (\<lambda>i. 0), room_h_draw = (\<lambda>i. 0), room_x_draw = (\<lambda>i. 0), room_y_draw = (\<lambda>i. 0),
     room_links_draw = (\<lambda>i. 0), sides_draw = (\<lambda>i j. 0), max_connections_draw = 0,
     conn_x_draw = (\<lambda>t. 0), conn_y_draw = (\<lambda>t. 0), conn_h_coin = (\<lambda>t. 0), conn_v_coin = (\<lambda>t. 0),
     num_monsters_draw = 0, monster_order_draw = (\<lambda>i. 0), monster_kind_draw = (\<lambda>i. 0),
     monster_bonus_draw = (\<lambda>i. 0), monster_health_draw = (\<lambda>i. 0), num_treasures_draw = 0,
     treasure_coin = (\<lambda>x y. 0), treasure_order_draw = (\<lambda>i. 0), treasure_kind_draw = (\<lambda>i. 0)\<rparr>"

text \<open>A 5x5 map with a 3x3 open area and a monster in its middle.\<close>

definition guarded_room :: maze_map where
  "guarded_room = \<lparr>width = 5, height = 5, base_level = 0, wall_height = 8,
     maze = [[0, 0, 0, 0, 0], [0, 1, 1, 1, 0], [0, 1, 1, 1, 0], [0, 1, 1, 1, 0], [0, 0, 0, 0, 0]],
     rooms = [],
     monsters = [((2, 2), \<lparr>mon_name = ''troll'', mon_defeated = False, mon_health = 3\<rparr>)],
     treasures = []\<rparr>"

section \<open>Experience and levels\<close>

text \<open>
  C10. For every player state and every non-negative amount, \<open>gain_experience\<close> adds
  exactly \<open>amount\<close> to the experience and returns True exactly when
  \<open>new experience div 100 + 1\<close> exceeds the current level. On True the level becomes
  that value, \<open>max_hp\<close> grows by exactly one (however many thresholds were crossed)
  and \<open>hp\<close> equals the new \<open>max_hp\<close>; on False level, \<open>max_hp\<close> and \<open>hp\<close> are
  unchanged.
\<close>

theorem gain_experience_spec:
  assumes "0 \<le> amount"
  shows "experience (snd (gain_experience p amount)) = experience p + amount
       \<and> (fst (gain_experience p amount)
            \<longleftrightarrow> (experience p + amount) div 100 + 1 > level p)
       \<and> (fst (gain_experience p amount) \<longrightarrow>
            level (snd (gain_experience p amount)) = (experience p + amount) div 100 + 1
          \<and> max_hp (snd (gain_experience p amount)) = max_hp p + 1
          \<and> hp (snd (gain_experience p amount)) = max_hp (snd (gain_experience p amount)))
       \<and> (\<not> fst (gain_experience p amount) \<longrightarrow>
            level (snd (gain_experience p amount)) = level p
          \<and> max_hp (snd (gain_experience p amount)) = max_hp p
          \<and> hp (snd (gain_experience p amount)) = hp p)"
  by (simp add: gain_experience_def Let_def)

theorem gain_experience_spec_witness:
  "fst (gain_experience (player_init 20 20) 250)
   \<and> experience (snd (gain_experience (player_init 20 20) 250)) = 250
   \<and> level (snd (gain_experience (player_init 20 20) 250)) = 3
   \<and> max_hp (snd (gain_experience (player_init 20 20) 250)) = 6
   \<and> hp (snd (gain_experience (player_init 20 20) 250)) = 6"
  using gain_experience_spec [of 250 "player_init 20 20"]
  by (simp add: player_init_def)

section \<open>Dimensions of a constructed map\<close>






lemma maze_map_init_dims:
  assumes "maze_map_init width0 height0 base g = Inr mm"
  shows "width mm = effective_dim width0 \<and> height mm = effective_dim height0
       \<and> (\<exists>r. generate_maze (effective_dim width0) (effective_dim height0) g None = Inr r)"
  using assms
  by (auto simp: maze_map_init_def Let_def split: sum.splits prod.splits)


lemma construction_30_31:
  "case maze_map_init 30 31 0 zero_rng of Inl e \<Rightarrow> False | Inr mm \<Rightarrow> True"
  by code_simp


section \<open>Trigonometric facts\<close>

lemma sqrt2_bounds: "1 < sqrt 2" "sqrt 2 < 2"
proof -
  show "1 < sqrt 2" by simp
  have "sqrt 2 < sqrt 4" by (rule real_sqrt_less_mono) simp
  moreover have "sqrt 4 = 2" by simp
  ultimately show "sqrt 2 < 2" by (simp only:)
qed

lemma sin_radians_45: "sin (radians 45) = sqrt 2 / 2"
proof -
  have "radians 45 = pi / 4" by (simp add: radians_def)
  then show ?thesis by (simp only: sin_45)
qed

lemma cos_radians_45: "cos (radians 45) = sqrt 2 / 2"
proof -
  have "radians 45 = pi / 4" by (simp add: radians_def)
  then show ?thesis by (simp only: cos_45)
qed

lemma tan_radians_35: "tan (radians 35) \<noteq> 0"
proof -
  have "0 < (35::real) * pi / 180" by simp
  moreover have "(35::real) * pi / 180 < pi / 2" by simp
  ultimately have "0 < tan (35 * pi / 180)" by (rule tan_gt_zero)
  then show ?thesis by (simp add: radians_def)
qed

section \<open>Projection\<close>

lemma default_fov_factor: "0 < tan (radians (fov camera_init / 2))"
proof -
  have "0 < (35::real) * pi / 180" by simp
  moreover have "(35::real) * pi / 180 < pi / 2" by simp
  ultimately have "0 < tan (35 * pi / 180)" by (rule tan_gt_zero)
  then show ?thesis by (simp add: radians_def camera_init_def)
qed

lemma py_int_half: "0 \<le> W \<Longrightarrow> py_int (real_of_int W / 2) = W div 2"
  by (simp add: py_int_def floor_divide_of_int_eq [of W 2, simplified])

text \<open>
  C9 (amended). A point at the camera position projects to None for every rotation
  pair, and nothing is raised. A point directly ahead at yaw 0 and pitch 0, farther
  than the near epsilon, projects (when \<open>tan (fov / 2)\<close> is not zero, as for the
  default field of view) to the screen x \<open>int(screen_width / 2)\<close>: the centre
  truncated to a pixel, which is \<open>screen_width / 2\<close> when the width is even.
\<close>

theorem project_zero_offset_and_ahead:
  "project_3d_to_2d cam pos pos rot_x rot_y W H = Inr None
   \<and> (vec_x point = vec_x pos \<and> vec_y point = vec_y pos
        \<and> 0.001 < vec_z point - vec_z pos \<and> tan (radians (fov cam / 2)) \<noteq> 0
       \<longrightarrow> project_3d_to_2d cam point pos 0 0 W H
            = Inr (Some (py_int (real_of_int W / 2), py_int (real_of_int H / 2),
                         vec_z point - vec_z pos)))
   \<and> (0 \<le> W \<longrightarrow> py_int (real_of_int W / 2) = W div 2)
   \<and> (even W \<longrightarrow> real_of_int (py_int (real_of_int W / 2)) = real_of_int W / 2)"
  apply (intro conjI impI)
     apply (simp add: project_3d_to_2d_def Let_def)
    apply (simp add: project_3d_to_2d_def Let_def radians_def)
   apply (simp add: py_int_half)
  apply (auto simp: py_int_def elim!: evenE)
  done

theorem project_zero_offset_and_ahead_witness:
  "project_3d_to_2d camera_init \<lparr>vec_x = 3, vec_y = 1, vec_z = 4\<rparr> \<lparr>vec_x = 3, vec_y = 1, vec_z = 4\<rparr> 10 20 1024 768
     = Inr None
   \<and> project_3d_to_2d camera_init \<lparr>vec_x = 3, vec_y = 1, vec_z = 9\<rparr> \<lparr>vec_x = 3, vec_y = 1, vec_z = 4\<rparr> 0 0 1024 768
     = Inr (Some (512, 384, 5))"
proof -
  have nz: "tan (radians (fov camera_init / 2)) \<noteq> 0"
    using default_fov_factor by simp
  have "py_int (real_of_int 1024 / 2) = 512" "py_int (real_of_int 768 / 2) = 384"
    by (simp_all add: py_int_def)
  then show ?thesis
    using nz project_zero_offset_and_ahead [of camera_init "\<lparr>vec_x = 3, vec_y = 1, vec_z = 4\<rparr>" 10 20 1024 768
        "\<lparr>vec_x = 3, vec_y = 1, vec_z = 9\<rparr>"]
    by simp
qed

text \<open>
  With an odd screen width the returned x is not \<open>screen_width / 2\<close>: for width
  1023 it is 511.
\<close>

theorem project_ahead_odd_width:
  "project_3d_to_2d camera_init \<lparr>vec_x = 0, vec_y = 0, vec_z = 5\<rparr> \<lparr>vec_x = 0, vec_y = 0, vec_z = 0\<rparr> 0 0 1023 768
     = Inr (Some (511, 384, 5))
   \<and> real_of_int 511 \<noteq> real_of_int 1023 / 2"
proof -
  have nz: "tan (radians (fov camera_init / 2)) \<noteq> 0"
    using default_fov_factor by simp
  have "py_int (real_of_int 1023 / 2) = 511" "py_int (real_of_int 768 / 2) = 384"
    by (simp_all add: py_int_def) 
  then show ?thesis
    using nz by (simp add: project_3d_to_2d_def Let_def radians_def)
qed

section \<open>Quads with vertices that fail to project\<close>

lemma wall_fold_length:
  "efold (project_wall_vertex cam p W H) vs acc = Inr r \<Longrightarrow>
     length (fst r) = length (fst acc) + length (filter (projects cam p W H) vs)"
proof (induction vs arbitrary: acc)
  case Nil
  then show ?case by simp
next
  case (Cons v vs)
  from Cons.prems obtain acc' where
    step: "project_wall_vertex cam p W H v acc = Inr acc'" and
    rest: "efold (project_wall_vertex cam p W H) vs acc' = Inr r"
    by (auto split: sum.splits)
  from step have "length (fst acc') = length (fst acc) + (if projects cam p W H v then 1 else 0)"
    by (auto simp: project_wall_vertex_def projects_def Let_def
        split: sum.splits option.splits prod.splits if_splits)
  with Cons.IH [OF rest] show ?case by simp
qed

lemma floor_fold_length:
  "efold (project_floor_corner cam p W H) vs acc = Inr r \<Longrightarrow>
     length (fst r) = length (fst acc) + length (filter (projects_floor cam p W H) vs)"
proof (induction vs arbitrary: acc)
  case Nil
  then show ?case by simp
next
  case (Cons v vs)
  from Cons.prems obtain acc' where
    step: "project_floor_corner cam p W H v acc = Inr acc'" and
    rest: "efold (project_floor_corner cam p W H) vs acc' = Inr r"
    by (auto split: sum.splits)
  from step have "length (fst acc') = length (fst acc) + (if projects_floor cam p W H v then 1 else 0)"
    by (auto simp: project_floor_corner_def projects_floor_def Let_def
        split: sum.splits option.splits prod.splits if_splits)
  with Cons.IH [OF rest] show ?case by simp
qed

lemma filter_all_length: "length (filter P xs) = length xs \<Longrightarrow> \<forall>x\<in>set xs. P x"
  by (metis filter_id_conv length_filter_less less_irrefl) 

lemma project_None_iff:
  "project_3d_to_2d cam v pos rx ry W H = Inr None \<longleftrightarrow> view_depth v pos rx ry \<le> 0.001"
  by (simp add: project_3d_to_2d_def view_depth_def Let_def)

lemma project_Some:
  assumes "0.001 < view_depth v pos rx ry" and "tan (radians (fov cam / 2)) \<noteq> 0"
  shows "\<exists>sx sy. project_3d_to_2d cam v pos rx ry W H = Inr (Some (sx, sy, view_depth v pos rx ry))"
  using assms by (simp add: project_3d_to_2d_def view_depth_def Let_def)

lemma projects_iff:
  assumes "tan (radians (fov cam / 2)) \<noteq> 0"
  shows "projects cam p W H v \<longleftrightarrow> 0.001 < view_depth v (position p) (rotation_x p) (rotation_y p)"
proof (cases "0.001 < view_depth v (position p) (rotation_x p) (rotation_y p)")
  case True
  from project_Some [OF True assms, of W H] True show ?thesis
    by (auto simp: projects_def)
next
  case False
  then have "project_3d_to_2d cam v (position p) (rotation_x p) (rotation_y p) W H = Inr None"
    by (simp add: project_None_iff)
  with False show ?thesis by (simp add: projects_def)
qed

lemma project_wall_vertex_total:
  assumes "tan (radians (fov cam / 2)) \<noteq> 0"
  shows "\<exists>r. project_wall_vertex cam p W H v acc = Inr r"
proof (cases "0.001 < view_depth v (position p) (rotation_x p) (rotation_y p)")
  case True
  from project_Some [OF True assms, of W H] show ?thesis
    by (auto simp: project_wall_vertex_def Let_def)
next
  case False
  then have "project_3d_to_2d cam v (position p) (rotation_x p) (rotation_y p) W H = Inr None"
    by (simp add: project_None_iff)
  then show ?thesis by (simp add: project_wall_vertex_def)
qed

lemma wall_fold_total:
  assumes "tan (radians (fov cam / 2)) \<noteq> 0"
  shows "\<exists>r. efold (project_wall_vertex cam p W H) vs acc = Inr r"
proof (induction vs arbitrary: acc)
  case Nil
  show ?case by simp
next
  case (Cons v vs)
  obtain acc' where "project_wall_vertex cam p W H v acc = Inr acc'"
    using project_wall_vertex_total [OF assms] by blast
  with Cons.IH [of acc'] show ?case by simp
qed

lemma wall_quad_kept:
  assumes "tan (radians (fov cam / 2)) \<noteq> 0"
      and "2 \<le> length (filter (projects cam p W H) vs)"
  shows "\<exists>wq. wall_quad cam p W H vs = Inr (Some wq)
             \<and> length (fst wq) = length (filter (projects cam p W H) vs)"
proof -
  obtain r where r: "efold (project_wall_vertex cam p W H) vs ([], []) = Inr r"
    using wall_fold_total [OF assms(1)] by blast
  from wall_fold_length [OF r] assms(2) have "2 \<le> length (fst r)" by simp
  with r wall_fold_length [OF r] show ?thesis
    by (cases r) (simp add: wall_quad_def Let_def)
qed

lemma looking_up_depth:
  "view_depth \<lparr>vec_x = a, vec_y = b, vec_z = c\<rparr> (position looking_up_player)
      (rotation_x looking_up_player) (rotation_y looking_up_player)
   = (b - 7/10 + (c - 11/10)) * (sqrt 2 / 2)"
  by (simp add: view_depth_def looking_up_player_def player_init_def
      Let_def sin_radians_45 cos_radians_45 radians_def [of 0] radians_def [of "- 0"]
      field_simps)

text \<open>
  For a player looking up by 45 degrees next to a wall face, one vertex of the face
  fails to project and the three others project.
\<close>

lemma three_vertex_face:
  "\<exists>wq. wall_quad camera_init looking_up_player 1024 768 (wall_face_vertices walled_in 2 1 (- 1) 0)
           = Inr (Some wq)
        \<and> length (fst wq) = 3
        \<and> \<not> list_all (projects camera_init looking_up_player 1024 768)
                (wall_face_vertices walled_in 2 1 (- 1) 0)"
proof -
  let ?pr = "projects camera_init looking_up_player 1024 768"
  have nz: "tan (radians (fov camera_init / 2)) \<noteq> 0"
    using tan_radians_35 by (simp add: camera_init_def)
  have vs: "wall_face_vertices walled_in 2 1 (- 1) 0
      = [\<lparr>vec_x = 2, vec_y = 0, vec_z = 1\<rparr>, \<lparr>vec_x = 2, vec_y = 0, vec_z = 2\<rparr>,
         \<lparr>vec_x = 2, vec_y = 8, vec_z = 2\<rparr>, \<lparr>vec_x = 2, vec_y = 8, vec_z = 1\<rparr>]"
    by (simp add: wall_face_vertices_def walled_in_def Let_def)
  have s: "0 < sqrt 2" by simp
  have v1: "\<not> ?pr \<lparr>vec_x = 2, vec_y = 0, vec_z = 1\<rparr>"
    by (simp add: projects_iff [OF nz] looking_up_depth; insert sqrt2_bounds; linarith)
  have v2: "?pr \<lparr>vec_x = 2, vec_y = 0, vec_z = 2\<rparr>"
    by (simp add: projects_iff [OF nz] looking_up_depth; insert sqrt2_bounds; linarith)
  have v3: "?pr \<lparr>vec_x = 2, vec_y = 8, vec_z = 2\<rparr>"
    by (simp add: projects_iff [OF nz] looking_up_depth; insert sqrt2_bounds; linarith)
  have v4: "?pr \<lparr>vec_x = 2, vec_y = 8, vec_z = 1\<rparr>"
    by (simp add: projects_iff [OF nz] looking_up_depth; insert sqrt2_bounds; linarith)
  have cnt: "length (filter ?pr (wall_face_vertices walled_in 2 1 (- 1) 0)) = 3"
    by (simp add: vs v1 v2 v3 v4)
  from wall_quad_kept [OF nz, of looking_up_player 1024 768 "wall_face_vertices walled_in 2 1 (- 1) 0"] cnt
  obtain wq where "wall_quad camera_init looking_up_player 1024 768 (wall_face_vertices walled_in 2 1 (- 1) 0)
           = Inr (Some wq)" "length (fst wq) = 3"
    by auto
  moreover have "\<not> list_all ?pr (wall_face_vertices walled_in 2 1 (- 1) 0)"
    by (simp add: vs v1)
  ultimately show ?thesis by blast
qed

section \<open>Collision containment\<close>

lemma blocked_cannot_move: "blocked_target mm tx tz \<Longrightarrow> can_move_to tx tz mm = Inr False"
  by (auto simp: blocked_target_def can_move_to_def walkable_def Let_def)

lemma blocked_do_move:
  assumes "blocked_target mm (fst (move_target mv p)) (snd (move_target mv p))"
      and "blocked_target mm (fst (move_target mv p)) (vec_z (position p))"
      and "blocked_target mm (vec_x (position p)) (snd (move_target mv p))"
  shows "do_move mv p mm = Inr p"
  using assms
  by (cases mv)
     (simp_all add: do_move_def move_forward_def move_backward_def strafe_left_def
        strafe_right_def move_with_sliding_def blocked_cannot_move)

text \<open>
  C7. When the direct target, the x-only slide target and the z-only slide target
  of a movement operation are all blocked, executing the operation any number of
  times returns normally and leaves the player's x and z unchanged.
\<close>

theorem blocked_move_keeps_position:
  assumes "blocked_target mm (fst (move_target mv p)) (snd (move_target mv p))"
      and "blocked_target mm (fst (move_target mv p)) (vec_z (position p))"
      and "blocked_target mm (vec_x (position p)) (snd (move_target mv p))"
  shows "\<exists>p'. repeat_move mv n p mm = Inr p'
            \<and> vec_x (position p') = vec_x (position p)
            \<and> vec_z (position p') = vec_z (position p)"
proof -
  have "repeat_move mv n p mm = Inr p"
    by (induction n) (simp_all add: blocked_do_move [OF assms])
  then show ?thesis by simp
qed


lemma corner_player_target:
  "move_target Forward corner_player = (19/10 + sqrt 2 / 10, 19/10 + sqrt 2 / 10)"
  by (simp add: move_target_def move_direction_def corner_player_def player_init_def
      Let_def sin_radians_45 cos_radians_45)

lemma py_int_corner: "py_int (19/10 + sqrt 2 / 10) = 2"
proof -
  have "2 \<le> 19/10 + sqrt 2 / 10" "19/10 + sqrt 2 / 10 < 2 + 1"
    using sqrt2_bounds by linarith+
  then have "\<lfloor>19/10 + sqrt 2 / 10\<rfloor> = 2"
    by (intro floor_unique) simp_all
  moreover have "0 \<le> 19/10 + sqrt 2 / 10" using sqrt2_bounds by simp
  ultimately show ?thesis by (simp add: py_int_def)
qed

lemma py_int_19: "py_int (19/10) = 1"
  by (simp add: py_int_def)

theorem blocked_move_keeps_position_witness:
  "\<exists>p'. repeat_move Forward 3 corner_player walled_in = Inr p'
        \<and> vec_x (position p') = 19/10 \<and> vec_z (position p') = 19/10"
proof -
  have pos: "vec_x (position corner_player) = 19/10" "vec_z (position corner_player) = 19/10"
    by (simp_all add: corner_player_def player_init_def)
  have b1: "blocked_target walled_in (fst (move_target Forward corner_player))
              (snd (move_target Forward corner_player))"
    by (simp add: corner_player_target blocked_target_def py_int_corner walled_in_def
        maze_get_def py_index_def norm_index_def)
  have b2: "blocked_target walled_in (fst (move_target Forward corner_player))
              (vec_z (position corner_player))"
    by (simp add: corner_player_target blocked_target_def py_int_corner py_int_19 pos
        walled_in_def maze_get_def py_index_def norm_index_def)
  have b3: "blocked_target walled_in (vec_x (position corner_player))
              (snd (move_target Forward corner_player))"
    by (simp add: corner_player_target blocked_target_def py_int_corner py_int_19 pos
        walled_in_def maze_get_def py_index_def norm_index_def)
  show ?thesis
    using blocked_move_keeps_position [OF b1 b2 b3, of 3] by (simp add: pos)
qed

section \<open>Room acceptance\<close>

lemma count_row:
  assumes "efold (\<lambda>rx wall_count. case maze_get m ry rx of Inl e \<Rightarrow> Inl e
             | Inr c \<Rightarrow> Inr (if c = 0 then wall_count + 1 else wall_count)) xs n0 = Inr n"
  shows "n = n0 + int (length (filter (\<lambda>rx. maze_get m ry rx = Inr 0) xs))"
  using assms
proof (induction xs arbitrary: n0)
  case Nil
  then show ?case by simp
next
  case (Cons x xs)
  from Cons.prems obtain c where c: "maze_get m ry x = Inr c"
    by (cases "maze_get m ry x") auto
  with Cons.prems have "efold (\<lambda>rx wall_count. case maze_get m ry rx of Inl e \<Rightarrow> Inl e
             | Inr c \<Rightarrow> Inr (if c = 0 then wall_count + 1 else wall_count)) xs
             (if c = 0 then n0 + 1 else n0) = Inr n"
    by simp
  from Cons.IH [OF this] c show ?case by simp
qed

lemma count_rows:
  assumes "efold (\<lambda>ry. efold (\<lambda>rx wall_count. case maze_get m ry rx of Inl e \<Rightarrow> Inl e
             | Inr c \<Rightarrow> Inr (if c = 0 then wall_count + 1 else wall_count)) xs) ys n0 = Inr n"
  shows "n = n0 + int (length (filter (\<lambda>(ry, rx). maze_get m ry rx = Inr 0) (List.product ys xs)))"
  using assms
proof (induction ys arbitrary: n0)
  case Nil
  then show ?case by simp
next
  case (Cons y ys)
  from Cons.prems obtain n1 where
    row: "efold (\<lambda>rx wall_count. case maze_get m y rx of Inl e \<Rightarrow> Inl e
             | Inr c \<Rightarrow> Inr (if c = 0 then wall_count + 1 else wall_count)) xs n0 = Inr n1"
    and rest: "efold (\<lambda>ry. efold (\<lambda>rx wall_count. case maze_get m ry rx of Inl e \<Rightarrow> Inl e
             | Inr c \<Rightarrow> Inr (if c = 0 then wall_count + 1 else wall_count)) xs) ys n1 = Inr n"
    by (auto split: sum.splits)
  have "length (filter (\<lambda>(ry, rx). maze_get m ry rx = Inr 0) (map (Pair y) xs))
      = length (filter (\<lambda>rx. maze_get m y rx = Inr 0) xs)"
    by (simp add: filter_map comp_def)
  with count_row [OF row] Cons.IH [OF rest] show ?case by simp
qed

lemma count_walls_card:
  assumes "count_walls m room_x room_y room_w room_h = Inr wc"
  shows "wc = int (card (wall_cells m room_x room_y room_w room_h))"
proof -
  let ?ys = "[room_y..room_y + room_h - 1]" and ?xs = "[room_x..room_x + room_w - 1]"
  let ?P = "\<lambda>(ry, rx). maze_get m ry rx = Inr 0"
  let ?L = "filter ?P (List.product ?ys ?xs)"
  have e0: "wc = int (length ?L)"
    using count_rows [OF assms [unfolded count_walls_def]] by simp
  have "distinct ?L"
    by (simp add: distinct_product)
  then have e1: "card (set ?L) = length ?L" by (rule distinct_card)
  have e2: "(\<lambda>(y, x). (x, y)) ` set ?L = wall_cells m room_x room_y room_w room_h"
    by (auto simp: wall_cells_def image_iff)
  have e3: "card ((\<lambda>(y, x). (x, y)) ` set ?L) = card (set ?L)"
    by (rule card_image) (auto simp: inj_on_def)
  show ?thesis
    unfolding e0 e1 [symmetric] e3 [symmetric] e2 ..
qed

text \<open>
  C8. For a candidate room, the counter of \<^verbatim>\<open>add_rooms\<close> is the number of wall
  cells in its footprint; a candidate with fewer wall cells than 80% of the
  footprint leaves the grid and the room list as they were, and a candidate that
  changes either has at least 80% wall cells (the code asks for strictly more).
\<close>

theorem room_needs_mostly_wall:
  assumes "room_candidate w h g i = Inr (room_x, room_y, room_w, room_h)"
      and "count_walls m room_x room_y room_w room_h = Inr wc"
  shows "wc = int (card (wall_cells m room_x room_y room_w room_h))
       \<and> (real_of_int wc < 0.8 * real_of_int (room_w * room_h)
            \<longrightarrow> add_room w h g i (m, rooms0) = Inr (m, rooms0))
       \<and> (\<forall>m' rooms1. add_room w h g i (m, rooms0) = Inr (m', rooms1)
              \<and> (m' \<noteq> m \<or> rooms1 \<noteq> rooms0)
            \<longrightarrow> 0.8 * real_of_int (room_w * room_h) \<le> real_of_int wc)"
  using assms count_walls_card [OF assms(2)]
  by (auto simp: add_room_def split: sum.splits option.splits if_splits)

lemma cand27: "room_candidate 27 27 zero_rng 0 = Inr (5, 5, 15, 15)"
  by (simp add: room_candidate_def randrange_def range_len_def zero_rng_def)

lemma count_open27: "count_walls (replicate 27 (replicate 27 1)) 5 5 15 15 = Inr 0"
  by code_simp

lemma count_wall27: "count_walls (replicate 27 (replicate 27 0)) 5 5 15 15 = Inr 225"
  by code_simp

lemma carve27: "case carve_room 5 5 15 15 (replicate 27 (replicate 27 0)) of Inr m \<Rightarrow> maze_get m 6 6 = Inr 2 | _ \<Rightarrow> False"
  by code_simp

lemma accept27:
  "case add_room 27 27 zero_rng 0 (replicate 27 (replicate 27 0), Some []) of
     Inr (m', Some rs) \<Rightarrow> length rs = 1 \<and> maze_get m' 6 6 = Inr 2
   | _ \<Rightarrow> False"
  by code_simp

theorem room_needs_mostly_wall_witness:
  "add_room 27 27 zero_rng 0 (replicate 27 (replicate 27 1), None)
     = Inr (replicate 27 (replicate 27 1), None)
   \<and> card (wall_cells (replicate 27 (replicate 27 1)) 5 5 15 15) = 0
   \<and> card (wall_cells (replicate 27 (replicate 27 0)) 5 5 15 15) = 225
   \<and> (\<exists>m' rs. add_room 27 27 zero_rng 0 (replicate 27 (replicate 27 0), Some []) = Inr (m', Some rs)
          \<and> rs \<noteq> [])"
proof -
  note open_case = room_needs_mostly_wall [OF cand27 count_open27, of None]
  note wall_case = room_needs_mostly_wall [OF cand27 count_wall27, of "Some []"]
  have a: "add_room 27 27 zero_rng 0 (replicate 27 (replicate 27 1), None)
     = Inr (replicate 27 (replicate 27 1), None)"
    using open_case by simp
  have b: "card (wall_cells (replicate 27 (replicate 27 1)) 5 5 15 15) = 0"
    using open_case by linarith
  have c: "card (wall_cells (replicate 27 (replicate 27 0)) 5 5 15 15) = 225"
    using wall_case by linarith
  have d: "\<exists>m' rs. add_room 27 27 zero_rng 0 (replicate 27 (replicate 27 0), Some []) = Inr (m', Some rs)
          \<and> rs \<noteq> []"
    using accept27 by (auto split: sum.splits option.splits prod.splits)
  from a b c d show ?thesis by blast
qed

section \<open>Entity disjointness\<close>

lemma update_key_set: "fst ` set (AList.update k v al) = insert k (fst ` set al)"
  by (induction al) auto

lemma place_treasure_keeps_disjoint:
  assumes "set (map fst ms) \<inter> set (map fst (fst st)) = {}"
  shows "set (map fst ms) \<inter> set (map fst (fst (place_treasure ms g n ic st))) = {}"
  using assms
  by (simp add: place_treasure_def Let_def has_key_def update_key_set)

lemma place_treasures_loop_disjoint:
  assumes "set (map fst ms) \<inter> set (map fst (fst st)) = {}"
  shows "set (map fst ms) \<inter> set (map fst (fst (fold (place_treasure ms g n) cs st))) = {}"
  using assms
proof (induction cs arbitrary: st)
  case Nil
  then show ?case by simp
next
  case (Cons c cs)
  have "set (map fst ms) \<inter> set (map fst (fst (place_treasure ms g n c st))) = {}"
    using Cons.prems by (rule place_treasure_keeps_disjoint)
  from Cons.IH [OF this] show ?case by simp
qed

lemma place_treasures_disjoint:
  assumes "place_treasures mm g = Inr ts"
  shows "set (map fst (monsters mm)) \<inter> set (map fst ts) = {}"
proof -
  from assms obtain cs where
    "ts = fst (fold (place_treasure (monsters mm) g (randint 15 25 (num_treasures_draw g))) cs ([], 0))"
    by (auto simp: place_treasures_def Let_def split: sum.splits)
  then show ?thesis
    using place_treasures_loop_disjoint [of "monsters mm" "([], 0)"] by simp
qed

text \<open>
  C5. The treasure map that \<^verbatim>\<open>place_treasures\<close> returns shares no key with the
  monster map, and so the two maps of a constructed \<^verbatim>\<open>MazeMap\<close> are disjoint.
\<close>

theorem entity_maps_disjoint:
  "(place_treasures mm g = Inr ts
      \<longrightarrow> set (map fst (monsters mm)) \<inter> set (map fst ts) = {})
   \<and> (maze_map_init width0 height0 base g = Inr mm'
      \<longrightarrow> set (map fst (monsters mm')) \<inter> set (map fst (treasures mm')) = {})"
proof (intro conjI impI)
  assume "place_treasures mm g = Inr ts"
  then show "set (map fst (monsters mm)) \<inter> set (map fst ts) = {}"
    by (rule place_treasures_disjoint)
next
  assume a: "maze_map_init width0 height0 base g = Inr mm'"
  then obtain m r ms ts' where
    "place_treasures \<lparr>width = effective_dim width0, height = effective_dim height0,
        base_level = base, wall_height = 8, maze = m, rooms = [], monsters = ms,
        treasures = []\<rparr> g = Inr ts'"
    and mm': "mm' = \<lparr>width = effective_dim width0, height = effective_dim height0,
        base_level = base, wall_height = 8, maze = m, rooms = [], monsters = ms,
        treasures = ts'\<rparr>"
    by (auto simp: maze_map_init_def Let_def split: sum.splits prod.splits)
  from place_treasures_disjoint [OF this(1)] mm'
  show "set (map fst (monsters mm')) \<inter> set (map fst (treasures mm')) = {}"
    by simp
qed

lemma guarded_room_treasures:
  "case place_treasures guarded_room zero_rng of
     Inr ts \<Rightarrow> length ts = 8 \<and> \<not> has_key ts (2, 2) \<and> has_key ts (1, 1)
   | Inl e \<Rightarrow> False"
  by code_simp

theorem entity_maps_disjoint_witness:
  "\<exists>ts. place_treasures guarded_room zero_rng = Inr ts \<and> length ts = 8
        \<and> has_key (monsters guarded_room) (2, 2) \<and> \<not> has_key ts (2, 2)
        \<and> set (map fst (monsters guarded_room)) \<inter> set (map fst ts) = {}"
proof -
  obtain ts where ts: "place_treasures guarded_room zero_rng = Inr ts" "length ts = 8"
    "\<not> has_key ts (2, 2)"
    using guarded_room_treasures by (auto split: sum.splits)
  have "has_key (monsters guarded_room) (2, 2)"
    by (simp add: guarded_room_def has_key_def)
  moreover have "set (map fst (monsters guarded_room)) \<inter> set (map fst ts) = {}"
    using entity_maps_disjoint [of guarded_room zero_rng ts] ts(1) by simp
  ultimately show ?thesis using ts by blast
qed

section \<open>Grid shape and painted cells\<close>

text \<open>
  A grid of \<open>h\<close> rows of \<open>w\<close> cells, and the cells inside it.
\<close>

definition wf_grid :: "int \<Rightarrow> int \<Rightarrow> grid \<Rightarrow> bool" where
  "wf_grid w h m \<longleftrightarrow> int (length m) = h \<and> (\<forall>row\<in>set m. int (length row) = w)"

definition in_grid :: "int \<Rightarrow> int \<Rightarrow> int \<times> int \<Rightarrow> bool" where
  "in_grid w h c \<longleftrightarrow> 0 \<le> fst c \<and> fst c < w \<and> 0 \<le> snd c \<and> snd c < h"

text \<open>
  \<open>paints v S w h m r\<close>: the result \<open>r\<close> is a grid of the same shape that holds
  \<open>v\<close> in the cells of \<open>S\<close> and agrees with \<open>m\<close> elsewhere.
\<close>

definition paints :: "int \<Rightarrow> (int \<times> int) set \<Rightarrow> int \<Rightarrow> int \<Rightarrow> grid \<Rightarrow> error + grid \<Rightarrow> bool" where
  "paints v S w h m r \<longleftrightarrow>
     (\<exists>m'. r = Inr m' \<and> wf_grid w h m'
        \<and> (\<forall>x y. in_grid w h (x, y) \<longrightarrow>
              maze_get m' y x = (if (x, y) \<in> S then Inr v else maze_get m y x)))"

lemma norm_index_nonneg: "0 \<le> i \<Longrightarrow> i < int n \<Longrightarrow> norm_index n i = Some (nat i)"
  by (simp add: norm_index_def)

lemma wf_row: "wf_grid w h m \<Longrightarrow> 0 \<le> y \<Longrightarrow> y < h \<Longrightarrow> int (length (m ! nat y)) = w"
  by (auto simp: wf_grid_def)

lemma maze_get_in_grid:
  assumes "wf_grid w h m" "in_grid w h (x, y)"
  shows "maze_get m y x = Inr (m ! nat y ! nat x)"
proof -
  have y: "norm_index (length m) y = Some (nat y)"
    using assms by (intro norm_index_nonneg) (auto simp: wf_grid_def in_grid_def)
  have "int (length (m ! nat y)) = w" using assms by (intro wf_row) (auto simp: in_grid_def)
  then have x: "norm_index (length (m ! nat y)) x = Some (nat x)"
    using assms by (intro norm_index_nonneg) (auto simp: in_grid_def)
  show ?thesis by (simp add: maze_get_unfold y x)
qed

lemma paints_set:
  assumes "wf_grid w h m" "in_grid w h (x, y)"
  shows "paints v {(x, y)} w h m (maze_set m y x v)"
proof -
  let ?row = "m ! nat y"
  let ?m' = "m[nat y := ?row[nat x := v]]"
  have ly: "nat y < length m" using assms by (auto simp: wf_grid_def in_grid_def)
  have y: "norm_index (length m) y = Some (nat y)"
    using assms by (intro norm_index_nonneg) (auto simp: wf_grid_def in_grid_def)
  have lrow: "int (length ?row) = w" using assms by (intro wf_row) (auto simp: in_grid_def)
  then have x: "norm_index (length ?row) x = Some (nat x)"
    using assms by (intro norm_index_nonneg) (auto simp: in_grid_def)
  have lx: "nat x < length ?row" using lrow assms by (auto simp: in_grid_def)
  have set: "maze_set m y x v = Inr ?m'"
    by (simp add: maze_set_def py_index_def py_store_def y x)
  have wf': "wf_grid w h ?m'"
    using assms(1) lrow unfolding wf_grid_def
    by (auto dest!: set_update_subset_insert [THEN subsetD])
  have "maze_get ?m' y' x' = (if (x', y') \<in> {(x, y)} then Inr v else maze_get m y' x')"
    if "in_grid w h (x', y')" for x' y'
  proof -
    have "maze_get ?m' y' x' = Inr (?m' ! nat y' ! nat x')"
      using wf' that by (rule maze_get_in_grid)
    moreover have "maze_get m y' x' = Inr (m ! nat y' ! nat x')"
      using assms(1) that by (rule maze_get_in_grid)
    moreover have "?m' ! nat y' ! nat x' = (if x' = x \<and> y' = y then v else m ! nat y' ! nat x')"
      using ly lx that assms(2)
      by (auto simp: nth_list_update in_grid_def nat_eq_iff)
    ultimately show ?thesis by simp
  qed
  with set wf' show ?thesis unfolding paints_def by blast
qed

lemma paints_skip: "wf_grid w h m \<Longrightarrow> paints v {} w h m (Inr m)"
  by (simp add: paints_def)

lemma paints_guarded:
  assumes "wf_grid w h m" and "g \<Longrightarrow> in_grid w h (x, y)"
  shows "paints v (if g then {(x, y)} else {}) w h m (if g then maze_set m y x v else Inr m)"
  using assms by (simp add: paints_set paints_skip)

lemma paints_wf: "paints v S w h m (Inr m') \<Longrightarrow> wf_grid w h m'"
  by (simp add: paints_def)

lemma paints_trans:
  assumes "paints v S w h m (Inr m1)" "paints v T w h m1 r"
  shows "paints v (S \<union> T) w h m r"
  using assms unfolding paints_def by auto

lemma paints_efold:
  assumes "wf_grid w h m"
      and "\<And>a t. a \<in> set xs \<Longrightarrow> wf_grid w h t \<Longrightarrow> paints v (S a) w h t (f a t)"
  shows "paints v (\<Union>a\<in>set xs. S a) w h m (efold f xs m)"
  using assms
proof (induction xs arbitrary: m)
  case Nil
  then show ?case by (simp add: paints_skip)
next
  case (Cons a xs)
  have "paints v (S a) w h m (f a m)" using Cons.prems by simp
  then obtain m1 where m1: "f a m = Inr m1" and p1: "paints v (S a) w h m (Inr m1)"
    unfolding paints_def by auto
  have "paints v (\<Union>b\<in>set xs. S b) w h m1 (efold f xs m1)"
    using Cons.prems(2) paints_wf [OF p1] by (intro Cons.IH) auto
  from paints_trans [OF p1 this] m1 show ?case by simp
qed

lemma paints_cong: "paints v S w h m r \<Longrightarrow> S = T \<Longrightarrow> paints v T w h m r"
  by simp

lemma set_offsets: "set offsets = {-3..3}"
  unfolding offsets_def by (rule set_upto)

text \<open>The cells of the 7x7 block around a cell that lie inside the grid.\<close>

definition block_cells :: "int \<Rightarrow> int \<Rightarrow> int \<Rightarrow> int \<Rightarrow> (int \<times> int) set" where
  "block_cells w h cx cy =
     {(x, y). \<bar>x - cx\<bar> \<le> 3 \<and> \<bar>y - cy\<bar> \<le> 3 \<and> in_grid w h (x, y)}"

lemma open_block_paints:
  assumes "wf_grid w h m"
  shows "paints 1 (block_cells w h cx cy) w h m (open_block w h cx cy m)"
proof -
  let ?g = "\<lambda>dy dx. 0 \<le> cy + dy \<and> cy + dy < h \<and> 0 \<le> cx + dx \<and> cx + dx < w"
  let ?S = "\<lambda>dy dx. if ?g dy dx then {(cx + dx, cy + dy)} else {}"
  have row: "paints 1 (\<Union>dx\<in>set offsets. ?S dy dx) w h t
      (efold (\<lambda>dx m. if ?g dy dx then maze_set m (cy + dy) (cx + dx) 1 else Inr m) offsets t)"
    if "wf_grid w h t" for dy t
    using that by (intro paints_efold paints_guarded) (auto simp: in_grid_def)
  have "paints 1 (\<Union>dy\<in>set offsets. \<Union>dx\<in>set offsets. ?S dy dx) w h m (open_block w h cx cy m)"
    unfolding open_block_def using assms by (intro paints_efold row)
  moreover have "(\<Union>dy\<in>set offsets. \<Union>dx\<in>set offsets. ?S dy dx) = block_cells w h cx cy"
  proof (intro set_eqI iffI)
    fix c assume "c \<in> (\<Union>dy\<in>set offsets. \<Union>dx\<in>set offsets. ?S dy dx)"
    then show "c \<in> block_cells w h cx cy"
      by (auto simp: set_offsets block_cells_def in_grid_def split: if_splits)
  next
    fix c assume c: "c \<in> block_cells w h cx cy"
    obtain x y where xy: "c = (x, y)" by (cases c)
    with c have "y - cy \<in> set offsets" "x - cx \<in> set offsets" "?g (y - cy) (x - cx)"
      by (auto simp: set_offsets block_cells_def in_grid_def)
    moreover have "c \<in> ?S (y - cy) (x - cx)" using xy calculation(3) by simp
    ultimately show "c \<in> (\<Union>dy\<in>set offsets. \<Union>dx\<in>set offsets. ?S dy dx)" by blast
  qed
  ultimately show ?thesis by (rule paints_cong)
qed

text \<open>The cells of the corridor from a cell towards \<open>(dx, dy)\<close>, as the loops visit them.\<close>

definition corridor_cells :: "int \<Rightarrow> int \<Rightarrow> int \<Rightarrow> int \<Rightarrow> int \<Rightarrow> int \<Rightarrow> (int \<times> int) set" where
  "corridor_cells w h cx cy dx dy =
     {c. \<exists>s k. 1 \<le> s \<and> s \<le> \<bar>dx\<bar> + \<bar>dy\<bar> - 1 \<and> - 3 \<le> k \<and> k \<le> 3
          \<and> (if dx \<noteq> 0
              then c = (cx + unit_step dx * s, cy + unit_step dy * s + k)
                   \<and> 0 \<le> cy + unit_step dy * s + k \<and> cy + unit_step dy * s + k < h
              else c = (cx + unit_step dx * s + k, cy + unit_step dy * s)
                   \<and> 0 \<le> cx + unit_step dx * s + k \<and> cx + unit_step dx * s + k < w)}"

lemma carve_corridor_paints:
  assumes "wf_grid w h m"
      and "\<And>s. 1 \<le> s \<Longrightarrow> s \<le> \<bar>dx\<bar> + \<bar>dy\<bar> - 1 \<Longrightarrow>
             (if dx \<noteq> 0 then 0 \<le> cx + unit_step dx * s \<and> cx + unit_step dx * s < w
              else 0 \<le> cy + unit_step dy * s \<and> cy + unit_step dy * s < h)"
  shows "paints 1 (corridor_cells w h cx cy dx dy) w h m (carve_corridor w h cx cy dx dy m)"
proof -
  let ?sx = "\<lambda>s. cx + unit_step dx * s" and ?sy = "\<lambda>s. cy + unit_step dy * s"
  let ?H = "\<lambda>s k. if 0 \<le> ?sy s + k \<and> ?sy s + k < h then {(?sx s, ?sy s + k)} else {}"
  let ?V = "\<lambda>s k. if 0 \<le> ?sx s + k \<and> ?sx s + k < w then {(?sx s + k, ?sy s)} else {}"
  let ?S = "\<lambda>s. if dx \<noteq> 0 then (\<Union>k\<in>set offsets. ?H s k) else (\<Union>k\<in>set offsets. ?V s k)"
  have step: "paints 1 (?S s) w h t
    (let step_x = cx + unit_step dx * s; step_y = cy + unit_step dy * s
     in if dx \<noteq> 0
        then efold (\<lambda>offset m'. if 0 \<le> step_y + offset \<and> step_y + offset < h
               then maze_set m' (step_y + offset) step_x 1 else Inr m') offsets t
        else efold (\<lambda>offset m'. if 0 \<le> step_x + offset \<and> step_x + offset < w
               then maze_set m' step_y (step_x + offset) 1 else Inr m') offsets t)"
    if "wf_grid w h t" "s \<in> set [1..\<bar>dx\<bar> + \<bar>dy\<bar> - 1]" for s t
  proof (cases "dx \<noteq> 0")
    case True
    with assms(2) [of s] that(2) have r: "0 \<le> ?sx s" "?sx s < w" by auto
    have "paints 1 (\<Union>k\<in>set offsets. ?H s k) w h t
      (efold (\<lambda>offset m'. if 0 \<le> ?sy s + offset \<and> ?sy s + offset < h
               then maze_set m' (?sy s + offset) (?sx s) 1 else Inr m') offsets t)"
      using that(1) r by (intro paints_efold paints_guarded) (auto simp: in_grid_def)
    moreover have "(dx \<noteq> 0) = True" using True by simp
    ultimately show ?thesis unfolding Let_def by (simp only: if_True)
  next
    case False
    with assms(2) [of s] that(2) have r: "0 \<le> ?sy s" "?sy s < h" by auto
    have "paints 1 (\<Union>k\<in>set offsets. ?V s k) w h t
      (efold (\<lambda>offset m'. if 0 \<le> ?sx s + offset \<and> ?sx s + offset < w
               then maze_set m' (?sy s) (?sx s + offset) 1 else Inr m') offsets t)"
      using that(1) r by (intro paints_efold paints_guarded) (auto simp: in_grid_def)
    moreover have "(dx \<noteq> 0) = False" using False by simp
    ultimately show ?thesis unfolding Let_def by (simp only: if_False)
  qed
  have "paints 1 (\<Union>s\<in>set [1..\<bar>dx\<bar> + \<bar>dy\<bar> - 1]. ?S s) w h m (carve_corridor w h cx cy dx dy m)"
    unfolding carve_corridor_def using assms(1) by (intro paints_efold step)
  moreover have "(\<Union>s\<in>set [1..\<bar>dx\<bar> + \<bar>dy\<bar> - 1]. ?S s) = corridor_cells w h cx cy dx dy"
    by (auto simp: corridor_cells_def set_offsets split: if_splits)
  ultimately show ?thesis by (rule paints_cong)
qed

section \<open>One iteration of the passage loop\<close>

lemma swap_mset: "i < length xs \<Longrightarrow> j < length xs \<Longrightarrow> mset (swap xs i j) = mset xs"
  unfolding swap_def by (metis mset_swap)

lemma shuffle_down_mset: "i < length xs \<Longrightarrow> mset (shuffle_down draw i xs) = mset xs"
proof (induction i arbitrary: xs)
  case 0
  then show ?case by simp
next
  case (Suc i)
  have "draw (Suc i) mod Suc (Suc i) < Suc (Suc i)" by simp
  then have "draw (Suc i) mod Suc (Suc i) < length xs"
    using Suc.prems by linarith
  then have m: "mset (swap xs (Suc i) (draw (Suc i) mod Suc (Suc i))) = mset xs"
    using Suc.prems by (intro swap_mset) auto
  have "length (swap xs (Suc i) (draw (Suc i) mod Suc (Suc i))) = length xs"
    by (simp add: swap_def)
  with Suc.IH [of "swap xs (Suc i) (draw (Suc i) mod Suc (Suc i))"] Suc.prems m
  show ?case by simp
qed

lemma shuffle_mset: "mset (shuffle draw xs) = mset xs"
proof (cases xs)
  case Nil
  then show ?thesis by (simp add: shuffle_def)
next
  case (Cons x ys)
  then show ?thesis unfolding shuffle_def by (intro shuffle_down_mset) simp
qed

lemma shuffle_set: "set (shuffle draw xs) = set xs"
  using shuffle_mset [of draw xs] by (metis set_mset_mset)

definition valid_target :: "int \<Rightarrow> int \<Rightarrow> int \<times> int \<Rightarrow> bool" where
  "valid_target w h n \<longleftrightarrow> 6 \<le> fst n \<and> fst n < w - 6 \<and> 6 \<le> snd n \<and> snd n < h - 6"

text \<open>
  What one iteration of the loop does at the cell \<open>c\<close> with the directions \<open>ds\<close>:
  either no direction leads to a wall target and the grid is unchanged, or the
  corridor to the first such target and its block are painted with tag 1.
\<close>

definition step_result ::
  "int \<Rightarrow> int \<Rightarrow> grid \<Rightarrow> int \<times> int \<Rightarrow> (int \<times> int) list \<Rightarrow> grid \<Rightarrow> (int \<times> int) option \<Rightarrow> bool" where
  "step_result w h m c ds m' r \<longleftrightarrow>
     (case r of
        None \<Rightarrow> m' = m
          \<and> list_all (\<lambda>d. valid_target w h (fst c + fst d, snd c + snd d)
                 \<longrightarrow> maze_get m (snd c + snd d) (fst c + fst d) \<noteq> Inr 0) ds
      | Some n \<Rightarrow>
          list_ex (\<lambda>d. n = (fst c + fst d, snd c + snd d)
             \<and> paints 1 (corridor_cells w h (fst c) (snd c) (fst d) (snd d)
                          \<union> block_cells w h (fst n) (snd n)) w h m (Inr m')) ds
          \<and> valid_target w h n \<and> maze_get m (snd n) (fst n) = Inr 0)"

lemma corridor_in_range:
  assumes "d \<in> set directions" "in_grid w h (cx, cy)" "valid_target w h (cx + fst d, cy + snd d)"
      and "1 \<le> s" "s \<le> \<bar>fst d\<bar> + \<bar>snd d\<bar> - 1"
  shows "if fst d \<noteq> 0 then 0 \<le> cx + unit_step (fst d) * s \<and> cx + unit_step (fst d) * s < w
         else 0 \<le> cy + unit_step (snd d) * s \<and> cy + unit_step (snd d) * s < h"
  using assms
  by (auto simp: directions_def in_grid_def valid_target_def unit_step_def)

lemma try_directions_step:
  assumes "wf_grid w h m" "in_grid w h (cx, cy)" "set ds \<subseteq> set directions"
  shows "\<exists>m' r. try_directions w h m cx cy ds = Inr (m', r) \<and> step_result w h m (cx, cy) ds m' r"
  using assms(3)
proof (induction ds)
  case Nil
  then show ?case by (simp add: step_result_def)
next
  case (Cons d ds)
  obtain dx dy where d: "d = (dx, dy)" by (cases d)
  have dd: "d \<in> set directions" using Cons.prems by simp
  let ?nx = "cx + dx" and ?ny = "cy + dy"
  from Cons obtain m' r where
    rest: "try_directions w h m cx cy ds = Inr (m', r)" "step_result w h m (cx, cy) ds m' r"
    by auto
  show ?case
  proof (cases "valid_target w h (?nx, ?ny)")
    case False
    then have "try_directions w h m cx cy (d # ds) = Inr (m', r)"
      using rest(1) d by (auto simp: valid_target_def Let_def)
    moreover have "step_result w h m (cx, cy) (d # ds) m' r"
      using rest(2) False d by (auto simp: step_result_def split: option.splits)
    ultimately show ?thesis by blast
  next
    case True
    then have ing: "in_grid w h (?nx, ?ny)" by (auto simp: valid_target_def in_grid_def)
    have get: "maze_get m ?ny ?nx = Inr (m ! nat ?ny ! nat ?nx)"
      using assms(1) ing by (rule maze_get_in_grid)
    show ?thesis
    proof (cases "m ! nat ?ny ! nat ?nx = 0")
      case False
      then have "try_directions w h m cx cy (d # ds) = Inr (m', r)"
        using rest(1) d get True by (auto simp: valid_target_def Let_def)
      moreover have "step_result w h m (cx, cy) (d # ds) m' r"
        using rest(2) False d get by (auto simp: step_result_def split: option.splits)
      ultimately show ?thesis by blast
    next
      case z: True
      have "paints 1 (corridor_cells w h cx cy dx dy) w h m (carve_corridor w h cx cy dx dy m)"
        using assms(1) corridor_in_range [OF dd assms(2)] True d
        by (intro carve_corridor_paints) auto
      then obtain m1 where m1: "carve_corridor w h cx cy dx dy m = Inr m1"
        and p1: "paints 1 (corridor_cells w h cx cy dx dy) w h m (Inr m1)"
        unfolding paints_def by auto
      have "paints 1 (block_cells w h ?nx ?ny) w h m1 (open_block w h ?nx ?ny m1)"
        using paints_wf [OF p1] by (rule open_block_paints)
      then obtain m2 where m2: "open_block w h ?nx ?ny m1 = Inr m2"
        and p2: "paints 1 (block_cells w h ?nx ?ny) w h m1 (Inr m2)"
        unfolding paints_def by auto
      have "try_directions w h m cx cy (d # ds) = Inr (m2, Some (?nx, ?ny))"
        using d True get z m1 m2 by (simp add: valid_target_def Let_def)
      moreover have "step_result w h m (cx, cy) (d # ds) m2 (Some (?nx, ?ny))"
        using paints_trans [OF p1 p2] True get z d by (simp add: step_result_def)
      ultimately show ?thesis by blast
    qed
  qed
qed

section \<open>The passage loop keeps an invariant\<close>

text \<open>
  An invariant \<open>P\<close> of the grid and the stack that every iteration keeps holds for the
  grid the loop returns, and the loop returns one.
\<close>

definition keeps_shape :: "int \<Rightarrow> int \<Rightarrow> (grid \<Rightarrow> (int \<times> int) list \<Rightarrow> bool) \<Rightarrow> bool" where
  "keeps_shape w h P \<longleftrightarrow>
     (\<forall>m st. P m st \<longrightarrow> wf_grid w h m \<and> (\<forall>c\<in>set st. in_grid w h c))"

definition keeps_pop :: "int \<Rightarrow> int \<Rightarrow> (grid \<Rightarrow> (int \<times> int) list \<Rightarrow> bool) \<Rightarrow> bool" where
  "keeps_pop w h P \<longleftrightarrow>
     (\<forall>m c st ds. P m (c # st) \<longrightarrow> set ds = set directions
        \<longrightarrow> step_result w h m c ds m None \<longrightarrow> P m st)"

definition keeps_push :: "int \<Rightarrow> int \<Rightarrow> (grid \<Rightarrow> (int \<times> int) list \<Rightarrow> bool) \<Rightarrow> bool" where
  "keeps_push w h P \<longleftrightarrow>
     (\<forall>m c st ds m' n. P m (c # st) \<longrightarrow> set ds = set directions
        \<longrightarrow> step_result w h m c ds m' (Some n) \<longrightarrow> P m' (n # c # st))"

lemma carve_passages_invariant:
  assumes "P m st" and "keeps_shape w h P" and "keeps_pop w h P" and "keeps_push w h P"
  shows "\<exists>m'. carve_passages w h draw k m st = Inr m' \<and> P m' []"
  using assms
proof (induction w h draw k m st rule: carve_passages.induct)
  case (1 w h draw k m)
  from "1.prems"(1) show ?case by simp
next
  case (2 w h draw k m current_x current_y rest)
  let ?ds = "shuffle (draw k) directions"
  note inv = "2.prems"(1) and shape = "2.prems"(2) and pop = "2.prems"(3) and push = "2.prems"(4)
  have ds: "set ?ds = set directions" by (rule shuffle_set)
  have sub: "set ?ds \<subseteq> set directions" using ds by simp
  from shape inv have wf: "wf_grid w h m" and ing: "in_grid w h (current_x, current_y)"
    unfolding keeps_shape_def by auto
  from try_directions_step [OF wf ing sub] obtain m' r where
    t: "try_directions w h m current_x current_y ?ds = Inr (m', r)" and
    s: "step_result w h m (current_x, current_y) ?ds m' r"
    by blast
  show ?case
  proof (cases r)
    case None
    from s None have mm: "m' = m" by (simp add: step_result_def)
    from s None mm have s': "step_result w h m (current_x, current_y) ?ds m None" by simp
    from pop inv ds s' have "P m rest" unfolding keeps_pop_def by blast
    then have p: "P m' rest" by (simp only: mm)
    from "2.IH"(1) [OF t refl None p shape pop push]
    obtain m2 where "carve_passages w h draw (Suc k) m' rest = Inr m2" "P m2 []"
      by blast
    then show ?thesis using t None by simp
  next
    case (Some n)
    from s Some have s': "step_result w h m (current_x, current_y) ?ds m' (Some n)" by simp
    from push inv ds s' have p: "P m' (n # (current_x, current_y) # rest)"
      unfolding keeps_push_def by blast
    from "2.IH"(2) [OF t refl Some p shape pop push]
    obtain m2 where
      "carve_passages w h draw (Suc k) m' (n # (current_x, current_y) # rest) = Inr m2" "P m2 []"
      by blast
    then show ?thesis using t Some by simp
  qed
qed

section \<open>Quads that reach the draw lists\<close>

text \<open>What the two lists can hold.\<close>

lemma wall_quad_Some:
  assumes "wall_quad cam p W H vertices = Inr (Some wq)"
  shows "length (fst wq) = length (filter (projects cam p W H) vertices) \<and> 2 \<le> length (fst wq)"
proof -
  from assms obtain r where r: "efold (project_wall_vertex cam p W H) vertices ([], []) = Inr r"
    and len: "2 \<le> length (fst r)" and eq: "fst wq = fst r"
    by (auto simp: wall_quad_def Let_def split: sum.splits prod.splits if_splits)
  from wall_fold_length [OF r] len eq show ?thesis by simp
qed

lemma floor_quad_Some:
  assumes "floor_quad cam p W H tag corners = Inr (Some q)" "length corners = 4"
  shows "length (fst q) = 4 \<and> (\<forall>c\<in>set corners. projects_floor cam p W H c)"
proof -
  from assms obtain r where r: "efold (project_floor_corner cam p W H) corners ([], 0) = Inr r"
    and len: "length (fst r) = 4" and eq: "fst q = fst r"
    by (auto simp: floor_quad_def Let_def split: sum.splits prod.splits if_splits)
  from floor_fold_length [OF r] len assms(2)
  have "length (filter (projects_floor cam p W H) corners) = length corners" by simp
  then have "\<forall>c\<in>set corners. projects_floor cam p W H c" by (rule filter_all_length)
  with len eq show ?thesis by simp
qed

definition wall_entry_ok :: "camera \<Rightarrow> player \<Rightarrow> int \<Rightarrow> int \<Rightarrow> maze_map \<Rightarrow> wall_entry \<Rightarrow> bool" where
  "wall_entry_ok cam p W H mm q \<longleftrightarrow>
     (\<exists>x z d. d \<in> set face_directions
        \<and> wall_quad cam p W H (wall_face_vertices mm x z (fst d) (snd d)) = Inr (Some q))"

definition ground_entry_ok :: "camera \<Rightarrow> player \<Rightarrow> int \<Rightarrow> int \<Rightarrow> maze_map \<Rightarrow> ground_entry \<Rightarrow> bool" where
  "ground_entry_ok cam p W H mm q \<longleftrightarrow>
     (\<exists>x z tag. floor_quad cam p W H tag (floor_corners mm x z) = Inr (Some q))"

lemma wall_face_entries:
  assumes "wall_face cam p W H mm x z d acc = Inr acc'" "d \<in> set face_directions"
      and "list_all (wall_entry_ok cam p W H mm) acc"
  shows "list_all (wall_entry_ok cam p W H mm) acc'"
proof (cases "wall_quad cam p W H (wall_face_vertices mm x z (fst d) (snd d))")
  case (Inl e)
  with assms(1,3) show ?thesis
    by (auto simp: wall_face_def Let_def split: if_splits sum.splits)
next
  case (Inr r)
  show ?thesis
  proof (cases r)
    case None
    with Inr assms(1,3) show ?thesis
      by (auto simp: wall_face_def Let_def split: if_splits sum.splits)
  next
    case (Some q)
    with Inr assms(2) have "wall_entry_ok cam p W H mm q"
      unfolding wall_entry_ok_def by blast
    with Inr Some assms(1,3) show ?thesis
      by (auto simp: wall_face_def Let_def split: if_splits sum.splits)
  qed
qed

lemma wall_cell_entries:
  assumes "wall_cell cam p W H mm z x acc = Inr acc'"
      and "list_all (wall_entry_ok cam p W H mm) acc"
  shows "list_all (wall_entry_ok cam p W H mm) acc'"
proof (cases "\<exists>t. efold (wall_face cam p W H mm x z) face_directions acc = Inr t \<and> acc' = t")
  case True
  then have e: "efold (wall_face cam p W H mm x z) face_directions acc = Inr acc'" by blast
  show ?thesis
    by (rule efold_invariant [where I = "list_all (wall_entry_ok cam p W H mm)", OF e assms(2)])
      (rule wall_face_entries)
next
  case False
  with assms(1) have "acc' = acc"
    by (auto simp: wall_cell_def Let_def split: if_splits sum.splits)
  with assms(2) show ?thesis by simp
qed

lemma render_maze_walls_entries:
  assumes "render_maze_walls cam p W H mm = Inr wall_quads"
  shows "list_all (wall_entry_ok cam p W H mm) wall_quads"
proof (rule efold_invariant [where I = "list_all (wall_entry_ok cam p W H mm)",
      OF assms [unfolded render_maze_walls_def Let_def]])
  show "list_all (wall_entry_ok cam p W H mm) []" by simp
next
  fix z t t'
  let ?xs = "[max 0 (py_int (vec_x (position p)) - 25)
               ..min (width mm) (py_int (vec_x (position p)) + 25) - 1]"
  assume t: "list_all (wall_entry_ok cam p W H mm) t"
    and e: "efold (wall_cell cam p W H mm z) ?xs t = Inr t'"
  show "list_all (wall_entry_ok cam p W H mm) t'"
    by (rule efold_invariant [where I = "list_all (wall_entry_ok cam p W H mm)", OF e t])
      (rule wall_cell_entries)
qed

lemma ground_cell_entries:
  assumes "ground_cell cam p W H mm z x acc = Inr acc'"
      and "list_all (ground_entry_ok cam p W H mm) acc"
  shows "list_all (ground_entry_ok cam p W H mm) acc'"
proof -
  have "acc' = acc \<or> (\<exists>q tag. floor_quad cam p W H tag (floor_corners mm x z) = Inr (Some q)
                          \<and> acc' = acc @ [q])"
    using assms(1)
    by (auto simp: ground_cell_def Let_def split: if_splits sum.splits option.splits)
  then show ?thesis
  proof
    assume "acc' = acc"
    with assms(2) show ?thesis by simp
  next
    assume "\<exists>q tag. floor_quad cam p W H tag (floor_corners mm x z) = Inr (Some q)
                          \<and> acc' = acc @ [q]"
    then obtain q tag where q: "floor_quad cam p W H tag (floor_corners mm x z) = Inr (Some q)"
      and a: "acc' = acc @ [q]" by blast
    from q have "ground_entry_ok cam p W H mm q" unfolding ground_entry_ok_def by blast
    with a assms(2) show ?thesis by simp
  qed
qed

lemma render_ground_plane_entries:
  assumes "render_ground_plane cam p W H mm = Inr ground_quads"
  shows "list_all (ground_entry_ok cam p W H mm) ground_quads"
proof (rule efold_invariant [where I = "list_all (ground_entry_ok cam p W H mm)",
      OF assms [unfolded render_ground_plane_def Let_def]])
  show "list_all (ground_entry_ok cam p W H mm) []" by simp
next
  fix z t t'
  let ?xs = "py_range (max 0 (py_int (vec_x (position p) - 35)))
               (min (width mm) (py_int (vec_x (position p) + 35)) - 2) 2"
  assume t: "list_all (ground_entry_ok cam p W H mm) t"
    and e: "efold (ground_cell cam p W H mm z) ?xs t = Inr t'"
  show "list_all (ground_entry_ok cam p W H mm) t'"
    by (rule efold_invariant [where I = "list_all (ground_entry_ok cam p W H mm)", OF e t])
      (rule ground_cell_entries)
qed

lemma length_floor_corners: "length (floor_corners mm x z) = 4"
  by (simp add: floor_corners_def Let_def)


text \<open>
  C3 (amended). Every entry of \<^verbatim>\<open>ground_quads\<close> is a floor quad with four screen
  corners, all four corners of which project with a depth between 0.001 and 120:
  a floor quad with a corner that fails is dropped. Every entry of \<^verbatim>\<open>wall_quads\<close>
  is a wall face of which at least two vertices project with a depth above 0.001,
  and its polygon holds the projecting vertices only: a wall face with fewer than
  two projecting vertices is dropped.
\<close>

theorem drawn_quads_project:
  "(render_ground_plane cam p W H mm = Inr ground_quads \<longrightarrow>
      (\<forall>q\<in>set ground_quads. length (fst q) = 4
         \<and> (\<exists>x z tag. floor_quad cam p W H tag (floor_corners mm x z) = Inr (Some q)
               \<and> list_all (projects_floor cam p W H) (floor_corners mm x z))))
   \<and> (render_maze_walls cam p W H mm = Inr wall_quads \<longrightarrow>
      (\<forall>q\<in>set wall_quads. 2 \<le> length (fst q)
         \<and> (\<exists>x z d. d \<in> set face_directions
               \<and> wall_quad cam p W H (wall_face_vertices mm x z (fst d) (snd d)) = Inr (Some q)
               \<and> length (fst q)
                   = length (filter (projects cam p W H)
                               (wall_face_vertices mm x z (fst d) (snd d))))))"
proof (intro conjI impI ballI)
  fix q
  assume r: "render_ground_plane cam p W H mm = Inr ground_quads" and q: "q \<in> set ground_quads"
  from render_ground_plane_entries [OF r] q have "ground_entry_ok cam p W H mm q"
    by (simp add: list_all_iff)
  then obtain x z tag where f: "floor_quad cam p W H tag (floor_corners mm x z) = Inr (Some q)"
    unfolding ground_entry_ok_def by blast
  from floor_quad_Some [OF f length_floor_corners]
  have l: "length (fst q) = 4" and a: "list_all (projects_floor cam p W H) (floor_corners mm x z)"
    by (simp_all add: list_all_iff)
  from l show "length (fst q) = 4" .
  from f a show "\<exists>x z tag. floor_quad cam p W H tag (floor_corners mm x z) = Inr (Some q)
      \<and> list_all (projects_floor cam p W H) (floor_corners mm x z)" by blast
next
  fix q
  assume r: "render_maze_walls cam p W H mm = Inr wall_quads" and q: "q \<in> set wall_quads"
  from render_maze_walls_entries [OF r] q have "wall_entry_ok cam p W H mm q"
    by (simp add: list_all_iff)
  then obtain x z d where d: "d \<in> set face_directions"
    and f: "wall_quad cam p W H (wall_face_vertices mm x z (fst d) (snd d)) = Inr (Some q)"
    unfolding wall_entry_ok_def by blast
  from wall_quad_Some [OF f] show "2 \<le> length (fst q)" by simp
  from wall_quad_Some [OF f] d f
  show "\<exists>x z d. d \<in> set face_directions
      \<and> wall_quad cam p W H (wall_face_vertices mm x z (fst d) (snd d)) = Inr (Some q)
      \<and> length (fst q)
          = length (filter (projects cam p W H) (wall_face_vertices mm x z (fst d) (snd d)))"
    by blast
qed

text \<open>The two functions return on every well-formed map.\<close>

lemma efold_total:
  assumes "\<And>a s. a \<in> set xs \<Longrightarrow> \<exists>s'. f a s = Inr s'"
  shows "\<exists>s'. efold f xs s = Inr s'"
  using assms
proof (induction xs arbitrary: s)
  case Nil
  show ?case by simp
next
  case (Cons a xs)
  from Cons.prems [of a s] obtain t where t: "f a s = Inr t" by auto
  from Cons.IH [of t] Cons.prems obtain s' where "efold f xs t = Inr s'" by auto
  with t show ?case by simp
qed

lemma occlusion_ray_total:
  assumes "wf_grid (width mm) (height mm) (maze mm)"
  shows "\<exists>b. occlusion_ray mm wall_x wall_z pos dx dz steps = Inr b"
proof (induction steps)
  case Nil
  show ?case by (simp add: exI [of _ False])
next
  case (Cons i rest)
  let ?mx = "py_int (vec_x pos + dx * (real_of_int i * 0.5))"
  let ?mz = "py_int (vec_z pos + dz * (real_of_int i * 0.5))"
  show ?case
  proof (cases "0 \<le> ?mx \<and> ?mx < width mm \<and> 0 \<le> ?mz \<and> ?mz < height mm")
    case True
    then have "in_grid (width mm) (height mm) (?mx, ?mz)" by (simp add: in_grid_def)
    from maze_get_in_grid [OF assms this] obtain c where "maze_get (maze mm) ?mz ?mx = Inr c"
      by blast
    with True Cons.IH show ?thesis by (auto simp: Let_def)
  next
    case False
    with Cons.IH show ?thesis by (auto simp: Let_def)
  qed
qed

lemma is_wall_occluded_total:
  assumes "wf_grid (width mm) (height mm) (maze mm)"
  shows "\<exists>b. is_wall_occluded mm wall_x wall_z pos = Inr b"
proof -
  let ?dx = "real_of_int wall_x - vec_x pos" and ?dz = "real_of_int wall_z - vec_z pos"
  let ?d = "sqrt (?dx * ?dx + ?dz * ?dz)"
  obtain b where "occlusion_ray mm wall_x wall_z pos (?dx / ?d) (?dz / ?d)
      [1..py_int (?d / 0.5) - 1] = Inr b"
    using occlusion_ray_total [OF assms] by blast
  then show ?thesis
    by (cases "?d < 3.0"; cases "?d = 0") (auto simp add: is_wall_occluded_def Let_def)
qed

lemma wall_quad_total:
  assumes "tan (radians (fov cam / 2)) \<noteq> 0"
  shows "\<exists>r. wall_quad cam p W H vs = Inr r"
proof -
  obtain r where "efold (project_wall_vertex cam p W H) vs ([], []) = Inr r"
    using wall_fold_total [OF assms] by blast
  then show ?thesis by (cases r) (simp add: wall_quad_def Let_def)
qed

lemma wall_face_total:
  assumes "wf_grid (width mm) (height mm) (maze mm)" "tan (radians (fov cam / 2)) \<noteq> 0"
  shows "\<exists>acc'. wall_face cam p W H mm x z d acc = Inr acc'"
proof (cases "0 \<le> x + fst d \<and> x + fst d < width mm \<and> 0 \<le> z + snd d \<and> z + snd d < height mm")
  case True
  then have "in_grid (width mm) (height mm) (x + fst d, z + snd d)" by (simp add: in_grid_def)
  from maze_get_in_grid [OF assms(1) this]
  obtain c where c: "maze_get (maze mm) (z + snd d) (x + fst d) = Inr c" by blast
  obtain r where r: "wall_quad cam p W H (wall_face_vertices mm x z (fst d) (snd d)) = Inr r"
    using wall_quad_total [OF assms(2)] by blast
  from True c r show ?thesis
    by (cases r) (simp_all add: wall_face_def Let_def)
next
  case False
  then show ?thesis by (auto simp: wall_face_def Let_def)
qed

lemma wall_cell_total:
  assumes "wf_grid (width mm) (height mm) (maze mm)" "tan (radians (fov cam / 2)) \<noteq> 0"
      and "in_grid (width mm) (height mm) (x, z)"
  shows "\<exists>acc'. wall_cell cam p W H mm z x acc = Inr acc'"
proof -
  from maze_get_in_grid [OF assms(1,3)] obtain c where c: "maze_get (maze mm) z x = Inr c"
    by blast
  obtain b where b: "is_wall_occluded mm x z (position p) = Inr b"
    using is_wall_occluded_total [OF assms(1)] by blast
  obtain t where t: "efold (wall_face cam p W H mm x z) face_directions acc = Inr t"
    using efold_total [of face_directions "wall_face cam p W H mm x z" acc]
      wall_face_total [OF assms(1,2)] by blast
  from c b t show ?thesis by (simp add: wall_cell_def Let_def)
qed

lemma render_maze_walls_total:
  assumes "wf_grid (width mm) (height mm) (maze mm)" "tan (radians (fov cam / 2)) \<noteq> 0"
  shows "\<exists>wall_quads. render_maze_walls cam p W H mm = Inr wall_quads"
  unfolding render_maze_walls_def Let_def
proof (intro efold_total)
  fix z x :: int and s :: "wall_entry list"
  assume "z \<in> set [max 0 (py_int (vec_z (position p)) - 25)
                     ..min (height mm) (py_int (vec_z (position p)) + 25) - 1]"
    and "x \<in> set [max 0 (py_int (vec_x (position p)) - 25)
                     ..min (width mm) (py_int (vec_x (position p)) + 25) - 1]"
  then have "in_grid (width mm) (height mm) (x, z)" by (auto simp: in_grid_def)
  with assms show "\<exists>s'. wall_cell cam p W H mm z x s = Inr s'" by (rule wall_cell_total)
qed

lemma project_floor_corner_total:
  assumes "tan (radians (fov cam / 2)) \<noteq> 0"
  shows "\<exists>r. project_floor_corner cam p W H v acc = Inr r"
proof (cases "0.001 < view_depth v (position p) (rotation_x p) (rotation_y p)")
  case True
  from project_Some [OF True assms, of W H] show ?thesis
    by (auto simp: project_floor_corner_def Let_def)
next
  case False
  then have "project_3d_to_2d cam v (position p) (rotation_x p) (rotation_y p) W H = Inr None"
    by (simp add: project_None_iff)
  then show ?thesis by (simp add: project_floor_corner_def)
qed

lemma floor_quad_total:
  assumes "tan (radians (fov cam / 2)) \<noteq> 0"
  shows "\<exists>r. floor_quad cam p W H tag vs = Inr r"
proof -
  obtain r where "efold (project_floor_corner cam p W H) vs ([], 0) = Inr r"
    using efold_total [of vs "project_floor_corner cam p W H" "([], 0)"]
      project_floor_corner_total [OF assms] by blast
  then show ?thesis by (cases r) (simp add: floor_quad_def Let_def)
qed

lemma ground_cell_total:
  assumes "wf_grid (width mm) (height mm) (maze mm)" "tan (radians (fov cam / 2)) \<noteq> 0"
  shows "\<exists>acc'. ground_cell cam p W H mm z x acc = Inr acc'"
proof -
  let ?mx = "max 0 (min (width mm - 1) (py_int (real_of_int x + 2 / 2)))"
  let ?mz = "max 0 (min (height mm - 1) (py_int (real_of_int z + 2 / 2)))"
  show ?thesis
  proof (cases "0 \<le> ?mx \<and> ?mx < width mm \<and> 0 \<le> ?mz \<and> ?mz < height mm")
    case True
    then have "in_grid (width mm) (height mm) (?mx, ?mz)" by (simp add: in_grid_def)
    from maze_get_in_grid [OF assms(1) this]
    obtain c where c: "maze_get (maze mm) ?mz ?mx = Inr c" by blast
    obtain r where r: "floor_quad cam p W H c (floor_corners mm x z) = Inr r"
      using floor_quad_total [OF assms(2)] by blast
    from True c r show ?thesis
      by (cases r) (simp_all add: ground_cell_def Let_def)
  next
    case False
    then show ?thesis by (auto simp: ground_cell_def Let_def)
  qed
qed

lemma render_ground_plane_total:
  assumes "wf_grid (width mm) (height mm) (maze mm)" "tan (radians (fov cam / 2)) \<noteq> 0"
  shows "\<exists>ground_quads. render_ground_plane cam p W H mm = Inr ground_quads"
  unfolding render_ground_plane_def Let_def
  by (intro efold_total ground_cell_total assms)


text \<open>Entries are only ever appended, and a face that passes every test is appended.\<close>

lemma wall_face_grows: "wall_face cam p W H mm x z d acc = Inr acc' \<Longrightarrow> set acc \<subseteq> set acc'"
  by (auto simp: wall_face_def Let_def split: if_splits sum.splits option.splits)

lemma wall_face_keeps:
  "wall_face cam p W H mm x z d acc = Inr acc' \<Longrightarrow> q \<in> set acc \<Longrightarrow> q \<in> set acc'"
  using wall_face_grows by blast

lemma wall_cell_keeps:
  assumes "wall_cell cam p W H mm z x acc = Inr acc'" "q \<in> set acc"
  shows "q \<in> set acc'"
proof (cases "efold (wall_face cam p W H mm x z) face_directions acc = Inr acc'")
  case True
  show ?thesis
    by (rule efold_invariant [where I = "\<lambda>t. q \<in> set t", OF True assms(2)])
      (rule wall_face_keeps)
next
  case False
  with assms(1) have "acc' = acc"
    by (auto simp: wall_cell_def Let_def split: if_splits sum.splits)
  with assms(2) show ?thesis by simp
qed

lemma sqrt_less_3: "s < 9 \<Longrightarrow> sqrt s < 3"
  by (rule real_less_lsqrt) simp_all

lemma near_not_occluded:
  assumes "(real_of_int x - vec_x pos)\<^sup>2 + (real_of_int z - vec_z pos)\<^sup>2 < 9"
  shows "is_wall_occluded mm x z pos = Inr False"
proof -
  have "sqrt ((real_of_int x - vec_x pos) * (real_of_int x - vec_x pos)
            + (real_of_int z - vec_z pos) * (real_of_int z - vec_z pos)) < 3"
    using sqrt_less_3 [OF assms] by (simp add: power2_eq_square)
  then show ?thesis by (simp add: is_wall_occluded_def Let_def)
qed

lemma wall_cell_hit:
  assumes c: "wall_cell cam p W H mm z x acc = Inr acc'"
      and wall: "maze_get (maze mm) z x = Inr 0"
      and near: "(real_of_int x - vec_x (position p))\<^sup>2
                  + (real_of_int z - vec_z (position p))\<^sup>2 < 9"
      and d: "d \<in> set face_directions"
      and adj: "0 \<le> x + fst d \<and> x + fst d < width mm \<and> 0 \<le> z + snd d \<and> z + snd d < height mm"
      and opn: "maze_get (maze mm) (z + snd d) (x + fst d) = Inr t" "t \<noteq> 0"
      and q: "wall_quad cam p W H (wall_face_vertices mm x z (fst d) (snd d)) = Inr (Some wq)"
  shows "wq \<in> set acc'"
proof -
  have "sqrt ((real_of_int x - vec_x (position p))\<^sup>2
              + (real_of_int z - vec_z (position p))\<^sup>2) < 3"
    using near by (rule sqrt_less_3)
  then have far: "\<not> sqrt ((real_of_int x - vec_x (position p))\<^sup>2
              + (real_of_int z - vec_z (position p))\<^sup>2) > 25 + 5" by simp
  have e: "efold (wall_face cam p W H mm x z) face_directions acc = Inr acc'"
    using c wall far near_not_occluded [OF near, of mm]
    by (simp add: wall_cell_def Let_def)
  show ?thesis
  proof (rule efold_hit [where Q = "\<lambda>t. wq \<in> set t", OF e d])
    fix u u'
    assume "wall_face cam p W H mm x z d u = Inr u'"
    then show "wq \<in> set u'" using adj opn q by (auto simp: wall_face_def Let_def)
  next
    fix b u u'
    assume "wq \<in> set u" "wall_face cam p W H mm x z b u = Inr u'"
    then show "wq \<in> set u'" using wall_face_keeps by blast
  qed
qed

lemma render_maze_walls_hit:
  assumes r: "render_maze_walls cam p W H mm = Inr wall_quads"
      and zr: "max 0 (py_int (vec_z (position p)) - 25) \<le> z"
              "z \<le> min (height mm) (py_int (vec_z (position p)) + 25) - 1"
      and xr: "max 0 (py_int (vec_x (position p)) - 25) \<le> x"
              "x \<le> min (width mm) (py_int (vec_x (position p)) + 25) - 1"
      and wall: "maze_get (maze mm) z x = Inr 0"
      and near: "(real_of_int x - vec_x (position p))\<^sup>2
                  + (real_of_int z - vec_z (position p))\<^sup>2 < 9"
      and d: "d \<in> set face_directions"
      and adj: "0 \<le> x + fst d \<and> x + fst d < width mm \<and> 0 \<le> z + snd d \<and> z + snd d < height mm"
      and opn: "maze_get (maze mm) (z + snd d) (x + fst d) = Inr t" "t \<noteq> 0"
      and q: "wall_quad cam p W H (wall_face_vertices mm x z (fst d) (snd d)) = Inr (Some wq)"
  shows "wq \<in> set wall_quads"
proof -
  let ?xs = "[max 0 (py_int (vec_x (position p)) - 25)
               ..min (width mm) (py_int (vec_x (position p)) + 25) - 1]"
  let ?zs = "[max 0 (py_int (vec_z (position p)) - 25)
               ..min (height mm) (py_int (vec_z (position p)) + 25) - 1]"
  have e: "efold (\<lambda>z. efold (wall_cell cam p W H mm z) ?xs) ?zs [] = Inr wall_quads"
    using r by (simp add: render_maze_walls_def Let_def)
  have zs: "z \<in> set ?zs" using zr by simp
  have xs: "x \<in> set ?xs" using xr by simp
  show ?thesis
  proof (rule efold_hit [where Q = "\<lambda>t. wq \<in> set t", OF e zs])
    fix u u'
    assume row: "efold (wall_cell cam p W H mm z) ?xs u = Inr u'"
    show "wq \<in> set u'"
    proof (rule efold_hit [where Q = "\<lambda>t. wq \<in> set t", OF row xs])
      fix v v'
      assume "wall_cell cam p W H mm z x v = Inr v'"
      then show "wq \<in> set v'" using wall near d adj opn q by (rule wall_cell_hit)
    next
      fix b v v'
      assume "wq \<in> set v" "wall_cell cam p W H mm z b v = Inr v'"
      then show "wq \<in> set v'" using wall_cell_keeps by blast
    qed
  next
    fix b u u'
    assume u: "wq \<in> set u" and row: "efold (wall_cell cam p W H mm b) ?xs u = Inr u'"
    show "wq \<in> set u'"
      by (rule efold_invariant [where I = "\<lambda>t. wq \<in> set t", OF row u]) (rule wall_cell_keeps)
  qed
qed

lemma ground_cell_keeps:
  "ground_cell cam p W H mm z x acc = Inr acc' \<Longrightarrow> q \<in> set acc \<Longrightarrow> q \<in> set acc'"
  by (auto simp: ground_cell_def Let_def split: if_splits sum.splits option.splits)

lemma py_int_of_int: "py_int (real_of_int n) = n"
  by (simp add: py_int_def)

lemma ground_cell_hit:
  assumes c: "ground_cell cam p W H mm z x acc = Inr acc'"
      and inside: "0 \<le> x + 1 \<and> x + 1 < width mm \<and> 0 \<le> z + 1 \<and> z + 1 < height mm"
      and opn: "maze_get (maze mm) (z + 1) (x + 1) = Inr t" "walkable t"
      and q: "floor_quad cam p W H t (floor_corners mm x z) = Inr (Some gq)"
  shows "gq \<in> set acc'"
proof -
  have "py_int (real_of_int x + 2 / 2) = x + 1" "py_int (real_of_int z + 2 / 2) = z + 1"
    using py_int_of_int [of "x + 1"] py_int_of_int [of "z + 1"] by simp_all
  moreover have "max 0 (min (width mm - 1) (x + 1)) = x + 1"
    "max 0 (min (height mm - 1) (z + 1)) = z + 1"
    using inside by simp_all
  ultimately show ?thesis using c inside opn q by (auto simp add: ground_cell_def Let_def)
qed

lemma render_ground_plane_hit:
  assumes r: "render_ground_plane cam p W H mm = Inr ground_quads"
      and zr: "z \<in> set (py_range (max 0 (py_int (vec_z (position p) - 35)))
                          (min (height mm) (py_int (vec_z (position p) + 35)) - 2) 2)"
      and xr: "x \<in> set (py_range (max 0 (py_int (vec_x (position p) - 35)))
                          (min (width mm) (py_int (vec_x (position p) + 35)) - 2) 2)"
      and inside: "0 \<le> x + 1 \<and> x + 1 < width mm \<and> 0 \<le> z + 1 \<and> z + 1 < height mm"
      and opn: "maze_get (maze mm) (z + 1) (x + 1) = Inr t" "walkable t"
      and q: "floor_quad cam p W H t (floor_corners mm x z) = Inr (Some gq)"
  shows "gq \<in> set ground_quads"
proof -
  let ?xs = "py_range (max 0 (py_int (vec_x (position p) - 35)))
               (min (width mm) (py_int (vec_x (position p) + 35)) - 2) 2"
  let ?zs = "py_range (max 0 (py_int (vec_z (position p) - 35)))
               (min (height mm) (py_int (vec_z (position p) + 35)) - 2) 2"
  have e: "efold (\<lambda>z. efold (ground_cell cam p W H mm z) ?xs) ?zs [] = Inr ground_quads"
    using r by (simp add: render_ground_plane_def Let_def)
  show ?thesis
  proof (rule efold_hit [where Q = "\<lambda>t. gq \<in> set t", OF e zr])
    fix u u'
    assume row: "efold (ground_cell cam p W H mm z) ?xs u = Inr u'"
    show "gq \<in> set u'"
    proof (rule efold_hit [where Q = "\<lambda>t. gq \<in> set t", OF row xr])
      fix v v'
      assume "ground_cell cam p W H mm z x v = Inr v'"
      then show "gq \<in> set v'" using inside opn q by (rule ground_cell_hit)
    next
      fix b v v'
      assume "gq \<in> set v" "ground_cell cam p W H mm z b v = Inr v'"
      then show "gq \<in> set v'" using ground_cell_keeps by blast
    qed
  next
    fix b u u'
    assume u: "gq \<in> set u" and row: "efold (ground_cell cam p W H mm b) ?xs u = Inr u'"
    show "gq \<in> set u'"
      by (rule efold_invariant [where I = "\<lambda>t. gq \<in> set t", OF row u]) (rule ground_cell_keeps)
  qed
qed


text \<open>
  A frame in the 5x5 map: the player stands in the open area and looks along the
  z axis; the floor sample at \<open>(2, 2)\<close> and the south face of the wall cell
  \<open>(1, 4)\<close> lie in front of the player.
\<close>

lemma camera_init_fov: "tan (radians (fov camera_init / 2)) \<noteq> 0"
  using tan_radians_35 by (simp add: camera_init_def)

lemma guarded_room_wf: "wf_grid (width guarded_room) (height guarded_room) (maze guarded_room)"
  by (simp add: wf_grid_def guarded_room_def)

lemma walled_in_wf: "wf_grid (width walled_in) (height walled_in) (maze walled_in)"
  by (simp add: wf_grid_def walled_in_def)

lemma floor_in_view:
  "\<exists>q. floor_quad camera_init looking_ahead_player 1024 768 1 (floor_corners guarded_room 2 2)
         = Inr (Some q)"
  apply (simp add: floor_quad_def floor_corners_def guarded_room_def project_floor_corner_def
      project_3d_to_2d_def looking_ahead_player_def player_init_def camera_init_def Let_def
      tan_radians_35 radians_def [of 0] radians_def [of "- 0"])
  apply (rule exI [of _ "19 / 10"])
  apply simp
  done

lemma wall_in_view:
  "\<exists>wq. wall_quad camera_init looking_ahead_player 1024 768
           (wall_face_vertices guarded_room 1 4 0 (- 1)) = Inr (Some wq)"
  apply (simp add: wall_quad_def wall_face_vertices_def guarded_room_def project_wall_vertex_def
      project_3d_to_2d_def looking_ahead_player_def player_init_def camera_init_def Let_def
      tan_radians_35 radians_def [of 0] radians_def [of "- 0"])
  apply (rule exI [of _ "29 / 10"])
  apply simp
  done

lemma range_0_3_2: "py_range 0 3 2 = [0, 2]"
  by code_simp

theorem drawn_quads_project_witness:
  "\<exists>ground_quads wall_quads.
      render_ground_plane camera_init looking_ahead_player 1024 768 guarded_room = Inr ground_quads
    \<and> render_maze_walls camera_init looking_ahead_player 1024 768 guarded_room = Inr wall_quads
    \<and> ground_quads \<noteq> [] \<and> wall_quads \<noteq> []
    \<and> list_all (\<lambda>q. length (fst q) = 4) ground_quads
    \<and> list_all (\<lambda>q. 2 \<le> length (fst q)) wall_quads"
proof -
  let ?cam = camera_init and ?p = looking_ahead_player and ?mm = guarded_room
  obtain gqs where gqs: "render_ground_plane ?cam ?p 1024 768 ?mm = Inr gqs"
    using render_ground_plane_total [OF guarded_room_wf camera_init_fov] by blast
  obtain wqs where wqs: "render_maze_walls ?cam ?p 1024 768 ?mm = Inr wqs"
    using render_maze_walls_total [OF guarded_room_wf camera_init_fov] by blast
  obtain q where q: "floor_quad ?cam ?p 1024 768 1 (floor_corners ?mm 2 2) = Inr (Some q)"
    using floor_in_view by blast
  obtain wq where wq: "wall_quad ?cam ?p 1024 768
      (wall_face_vertices ?mm 1 4 0 (- 1)) = Inr (Some wq)"
    using wall_in_view by blast
  have pos: "vec_x (position ?p) = 3 / 2" "vec_z (position ?p) = 11 / 10"
    by (simp_all add: looking_ahead_player_def player_init_def)
  have dims: "width ?mm = 5" "height ?mm = 5" by (simp_all add: guarded_room_def)
  have ints: "py_int (3 / 2 - 35) = - 33" "py_int (3 / 2 + 35) = 36"
    "py_int (11 / 10 - 35) = - 33" "py_int (11 / 10 + 35) = 36" "py_int (3 / 2) = 1"
    "py_int (11 / 10) = 1" "py_int (- (339 / 10)) = - 33" "py_int (361 / 10) = 36"
    "py_int (- (67 / 2)) = - 33" "py_int (73 / 2) = 36"
    by (simp_all add: py_int_def)
  have "q \<in> set gqs"
  proof (rule render_ground_plane_hit [OF gqs _ _ _ _ _ q])
    show "2 \<in> set (py_range (max 0 (py_int (vec_z (position ?p) - 35)))
                     (min (height ?mm) (py_int (vec_z (position ?p) + 35)) - 2) 2)"
      by (simp add: pos dims ints range_0_3_2)
    show "2 \<in> set (py_range (max 0 (py_int (vec_x (position ?p) - 35)))
                     (min (width ?mm) (py_int (vec_x (position ?p) + 35)) - 2) 2)"
      by (simp add: pos dims ints range_0_3_2)
    show "0 \<le> (2::int) + 1 \<and> 2 + 1 < width ?mm \<and> 0 \<le> (2::int) + 1 \<and> 2 + 1 < height ?mm"
      by (simp add: dims)
    show "maze_get (maze ?mm) (2 + 1) (2 + 1) = Inr 1"
      by (simp add: guarded_room_def maze_get_unfold norm_index_def)
    show "walkable 1" by (simp add: walkable_def)
  qed
  moreover have "wq \<in> set wqs"
  proof (rule render_maze_walls_hit [where x = 1 and z = 4 and d = "(0, - 1)" and t = 1, OF wqs])
    show "wall_quad ?cam ?p 1024 768
        (wall_face_vertices ?mm 1 4 (fst (0::int, - 1::int)) (snd (0::int, - 1::int))) = Inr (Some wq)"
      using wq by simp
    show "max 0 (py_int (vec_z (position ?p)) - 25) \<le> 4"
      "4 \<le> min (height ?mm) (py_int (vec_z (position ?p)) + 25) - 1"
      "max 0 (py_int (vec_x (position ?p)) - 25) \<le> 1"
      "1 \<le> min (width ?mm) (py_int (vec_x (position ?p)) + 25) - 1"
      by (simp_all add: pos dims ints)
    show "maze_get (maze ?mm) 4 1 = Inr 0"
      by (simp add: guarded_room_def maze_get_unfold norm_index_def)
    show "(real_of_int 1 - vec_x (position ?p))\<^sup>2 + (real_of_int 4 - vec_z (position ?p))\<^sup>2 < 9"
      by (simp add: pos power2_eq_square)
    show "(0, - 1) \<in> set face_directions" by (simp add: face_directions_def)
    show "0 \<le> 1 + fst (0::int, - 1::int) \<and> 1 + fst (0::int, - 1::int) < width ?mm
        \<and> 0 \<le> 4 + snd (0::int, - 1::int) \<and> 4 + snd (0::int, - 1::int) < height ?mm"
      by (simp add: dims)
    show "maze_get (maze ?mm) (4 + snd (0::int, - 1::int)) (1 + fst (0::int, - 1::int)) = Inr 1"
      by (simp add: guarded_room_def maze_get_unfold norm_index_def)
    show "(1::int) \<noteq> 0" by simp
  qed
  moreover note drawn_quads_project [of ?cam ?p 1024 768 ?mm gqs wqs]
  ultimately show ?thesis using gqs wqs by (auto simp: list_all_iff)
qed


text \<open>
  The claim as stated fails for walls. In the 3x3 map, with the player looking up
  by 45 degrees, the lower near vertex of the west face of the wall cell \<open>(2, 1)\<close>
  fails to project; the face is neither culled nor dropped, and \<^verbatim>\<open>wall_quads\<close>
  receives it with its three other vertices, a triangle.
\<close>

theorem wall_triangle_drawn:
  "\<exists>wall_quads wq.
      render_maze_walls camera_init looking_up_player 1024 768 walled_in = Inr wall_quads
    \<and> wq \<in> set wall_quads
    \<and> wall_quad camera_init looking_up_player 1024 768 (wall_face_vertices walled_in 2 1 (- 1) 0)
        = Inr (Some wq)
    \<and> length (fst wq) = 3
    \<and> \<not> list_all (projects camera_init looking_up_player 1024 768)
            (wall_face_vertices walled_in 2 1 (- 1) 0)"
proof -
  let ?cam = camera_init and ?p = looking_up_player and ?mm = walled_in
  obtain wqs where wqs: "render_maze_walls ?cam ?p 1024 768 ?mm = Inr wqs"
    using render_maze_walls_total [OF walled_in_wf camera_init_fov] by blast
  obtain wq where wq: "wall_quad ?cam ?p 1024 768 (wall_face_vertices ?mm 2 1 (- 1) 0) = Inr (Some wq)"
    and three: "length (fst wq) = 3"
    and fails: "\<not> list_all (projects ?cam ?p 1024 768) (wall_face_vertices ?mm 2 1 (- 1) 0)"
    using three_vertex_face by blast
  have pos: "vec_x (position ?p) = 3 / 2" "vec_z (position ?p) = 11 / 10"
    by (simp_all add: looking_up_player_def player_init_def)
  have dims: "width ?mm = 3" "height ?mm = 3" by (simp_all add: walled_in_def)
  have ints: "py_int (3 / 2) = 1" "py_int (11 / 10) = 1"
    by (simp_all add: py_int_def)
  have "wq \<in> set wqs"
  proof (rule render_maze_walls_hit [where x = 2 and z = 1 and d = "(- 1, 0)" and t = 1, OF wqs])
    show "wall_quad ?cam ?p 1024 768
        (wall_face_vertices ?mm 2 1 (fst (- 1::int, 0::int)) (snd (- 1::int, 0::int))) = Inr (Some wq)"
      using wq by simp
    show "max 0 (py_int (vec_z (position ?p)) - 25) \<le> 1"
      "1 \<le> min (height ?mm) (py_int (vec_z (position ?p)) + 25) - 1"
      "max 0 (py_int (vec_x (position ?p)) - 25) \<le> 2"
      "2 \<le> min (width ?mm) (py_int (vec_x (position ?p)) + 25) - 1"
      by (simp_all add: pos dims ints)
    show "maze_get (maze ?mm) 1 2 = Inr 0"
      by (simp add: walled_in_def maze_get_unfold norm_index_def)
    show "(real_of_int 2 - vec_x (position ?p))\<^sup>2 + (real_of_int 1 - vec_z (position ?p))\<^sup>2 < 9"
      by (simp add: pos power2_eq_square)
    show "(- 1, 0) \<in> set face_directions" by (simp add: face_directions_def)
    show "0 \<le> 2 + fst (- 1::int, 0::int) \<and> 2 + fst (- 1::int, 0::int) < width ?mm
        \<and> 0 \<le> 1 + snd (- 1::int, 0::int) \<and> 1 + snd (- 1::int, 0::int) < height ?mm"
      by (simp add: dims)
    show "maze_get (maze ?mm) (1 + snd (- 1::int, 0::int)) (2 + fst (- 1::int, 0::int)) = Inr 1"
      by (simp add: walled_in_def maze_get_unfold norm_index_def)
    show "(1::int) \<noteq> 0" by simp
  qed
  with wqs wq three fails show ?thesis by blast
qed

section \<open>The border of a generated maze\<close>

text \<open>
  The cells of the outer border, row by row, and the grids whose border is all wall.
\<close>

definition border_cells :: "int \<Rightarrow> int \<Rightarrow> (int \<times> int) list" where
  "border_cells w h =
     filter (\<lambda>c. fst c = 0 \<or> fst c = w - 1 \<or> snd c = 0 \<or> snd c = h - 1)
       (List.product [0..w - 1] [0..h - 1])"

definition border_wall :: "int \<Rightarrow> int \<Rightarrow> grid \<Rightarrow> bool" where
  "border_wall w h m \<longleftrightarrow> list_all (\<lambda>c. maze_get m (snd c) (fst c) = Inr 0) (border_cells w h)"

text \<open>The cells at least one step away from the border.\<close>

definition inner :: "int \<Rightarrow> int \<Rightarrow> int \<times> int \<Rightarrow> bool" where
  "inner w h c \<longleftrightarrow> 1 \<le> fst c \<and> fst c \<le> w - 2 \<and> 1 \<le> snd c \<and> snd c \<le> h - 2"

text \<open>A grid of the right shape with an intact border.\<close>

definition sealed :: "int \<Rightarrow> int \<Rightarrow> grid \<Rightarrow> bool" where
  "sealed w h m \<longleftrightarrow> wf_grid w h m \<and> border_wall w h m"

lemma set_border_cells:
  "set (border_cells w h) =
     {c. in_grid w h c \<and> (fst c = 0 \<or> fst c = w - 1 \<or> snd c = 0 \<or> snd c = h - 1)}"
  unfolding border_cells_def in_grid_def by auto

lemma border_cells_not_inner: "c \<in> set (border_cells w h) \<Longrightarrow> \<not> inner w h c"
  by (auto simp: set_border_cells inner_def)

lemma border_cells_in_grid: "c \<in> set (border_cells w h) \<Longrightarrow> in_grid w h c"
  by (simp add: set_border_cells)

lemma inner_in_grid: "inner w h c \<Longrightarrow> in_grid w h c"
  by (auto simp: inner_def in_grid_def)

lemma paints_sealed:
  assumes "paints v S w h m (Inr m')" "sealed w h m" "\<And>c. c \<in> S \<Longrightarrow> inner w h c"
  shows "sealed w h m'"
proof -
  have wf: "wf_grid w h m'" using assms(1) by (rule paints_wf)
  have "maze_get m' (snd c) (fst c) = Inr 0" if c: "c \<in> set (border_cells w h)" for c
  proof -
    have ing: "in_grid w h (fst c, snd c)" using border_cells_in_grid [OF c] by simp
    have "c \<notin> S" using assms(3) [of c] border_cells_not_inner [OF c] by blast
    then have "(fst c, snd c) \<notin> S" by simp
    with assms(1) ing have "maze_get m' (snd c) (fst c) = maze_get m (snd c) (fst c)"
      unfolding paints_def by auto
    moreover have "maze_get m (snd c) (fst c) = Inr 0"
      using assms(2) c by (auto simp: sealed_def border_wall_def list_all_iff)
    ultimately show ?thesis by simp
  qed
  then have "border_wall w h m'" by (auto simp: border_wall_def list_all_iff)
  with wf show ?thesis by (simp add: sealed_def)
qed

lemma maze_set_sealed:
  assumes "sealed w h m" "inner w h (x, y)" "maze_set m y x v = Inr m'"
  shows "sealed w h m'"
proof -
  have "paints v {(x, y)} w h m (maze_set m y x v)"
    using assms(1,2) by (intro paints_set inner_in_grid) (simp_all add: sealed_def)
  with assms(3) have "paints v {(x, y)} w h m (Inr m')" by simp
  then show ?thesis using assms(1) by (rule paints_sealed) (use assms(2) in simp)
qed

lemma block_cells_inner:
  assumes "4 \<le> cx" "cx \<le> w - 5" "4 \<le> cy" "cy \<le> h - 5" "c \<in> block_cells w h cx cy"
  shows "inner w h c"
  using assms by (auto simp: block_cells_def inner_def)

lemma corridor_cells_inner:
  assumes "d \<in> set directions" "in_grid w h (cx, cy)" "valid_target w h (cx + fst d, cy + snd d)"
      and "c \<in> corridor_cells w h cx cy (fst d) (snd d)"
  shows "inner w h c"
  using assms
  by (auto simp: directions_def in_grid_def valid_target_def unit_step_def corridor_cells_def
      inner_def split: if_splits)


text \<open>The passage loop started on a sealed grid returns a sealed grid.\<close>

definition sealed_stack :: "int \<Rightarrow> int \<Rightarrow> grid \<Rightarrow> (int \<times> int) list \<Rightarrow> bool" where
  "sealed_stack w h m st \<longleftrightarrow> sealed w h m \<and> list_all (in_grid w h) st"

lemma sealed_stack_shape: "keeps_shape w h (sealed_stack w h)"
  by (simp add: keeps_shape_def sealed_stack_def sealed_def list_all_iff)

lemma sealed_stack_pop: "keeps_pop w h (sealed_stack w h)"
  by (simp add: keeps_pop_def sealed_stack_def)

lemma valid_target_in_grid: "valid_target w h n \<Longrightarrow> in_grid w h n"
  by (auto simp: valid_target_def in_grid_def)

lemma sealed_stack_push: "keeps_push w h (sealed_stack w h)"
  unfolding keeps_push_def
proof (intro allI impI)
  fix m c st ds m' n
  assume inv: "sealed_stack w h m (c # st)" and ds: "set ds = set directions"
    and s: "step_result w h m c ds m' (Some n)"
  from s obtain d where d: "d \<in> set ds" and n: "n = (fst c + fst d, snd c + snd d)"
    and p: "paints 1 (corridor_cells w h (fst c) (snd c) (fst d) (snd d)
                       \<union> block_cells w h (fst n) (snd n)) w h m (Inr m')"
    and v: "valid_target w h n"
    by (auto simp: step_result_def list_ex_iff)
  from inv have sm: "sealed w h m" and c: "in_grid w h (fst c, snd c)"
    by (simp_all add: sealed_stack_def)
  have dd: "d \<in> set directions" using d ds by simp
  have vt: "valid_target w h (fst c + fst d, snd c + snd d)" using v n by simp
  have "sealed w h m'" using p sm
  proof (rule paints_sealed)
    fix a
    assume "a \<in> corridor_cells w h (fst c) (snd c) (fst d) (snd d)
              \<union> block_cells w h (fst n) (snd n)"
    then consider "a \<in> corridor_cells w h (fst c) (snd c) (fst d) (snd d)"
      | "a \<in> block_cells w h (fst n) (snd n)" by blast
    then show "inner w h a"
    proof cases
      case 1
      with dd c vt show ?thesis by (rule corridor_cells_inner)
    next
      case 2
      have "4 \<le> fst n" "fst n \<le> w - 5" "4 \<le> snd n" "snd n \<le> h - 5"
        using v by (auto simp: valid_target_def)
      then show ?thesis using 2 by (rule block_cells_inner)
    qed
  qed
  moreover have "in_grid w h n" using v by (rule valid_target_in_grid)
  ultimately show "sealed_stack w h m' (n # c # st)"
    using inv by (simp add: sealed_stack_def)
qed

lemma carve_passages_sealed:
  assumes "sealed w h m" "list_all (in_grid w h) st"
  shows "\<exists>m'. carve_passages w h draw k m st = Inr m' \<and> sealed w h m'"
proof -
  have "sealed_stack w h m st" using assms by (simp add: sealed_stack_def)
  from carve_passages_invariant [OF this sealed_stack_shape sealed_stack_pop sealed_stack_push]
  show ?thesis by (simp add: sealed_stack_def)
qed

text \<open>The all-wall grid and the start block.\<close>

lemma wall_grid_wf: "0 \<le> w \<Longrightarrow> 0 \<le> h \<Longrightarrow> wf_grid w h (replicate (nat h) (replicate (nat w) 0))"
  by (simp add: wf_grid_def)

lemma wall_grid_get:
  assumes "in_grid w h (x, y)"
  shows "maze_get (replicate (nat h) (replicate (nat w) 0)) y x = Inr 0"
proof -
  have w: "0 \<le> w" "0 \<le> h" using assms by (auto simp: in_grid_def)
  have "maze_get (replicate (nat h) (replicate (nat w) 0)) y x
      = Inr (replicate (nat h) (replicate (nat w) 0) ! nat y ! nat x)"
    using wall_grid_wf [OF w] assms by (rule maze_get_in_grid)
  moreover have "nat y < nat h" "nat x < nat w" using assms by (auto simp: in_grid_def)
  ultimately show ?thesis by simp
qed

lemma wall_grid_sealed:
  assumes "0 \<le> w" "0 \<le> h"
  shows "sealed w h (replicate (nat h) (replicate (nat w) 0))"
  unfolding sealed_def border_wall_def list_all_iff
  using wall_grid_wf [OF assms] wall_grid_get border_cells_in_grid
  by (metis prod.collapse)

lemma start_coord_bounds: "29 \<le> n \<Longrightarrow> 4 \<le> start_coord n \<and> start_coord n \<le> n - 5"
  unfolding start_coord_def by arith

lemma start_block_sealed:
  assumes "29 \<le> w" "29 \<le> h"
  shows "\<exists>m1. open_block w h (start_coord w) (start_coord h)
                (replicate (nat h) (replicate (nat w) 0)) = Inr m1 \<and> sealed w h m1"
proof -
  let ?m0 = "replicate (nat h) (replicate (nat w) 0)"
  have s0: "sealed w h ?m0" using assms by (intro wall_grid_sealed) simp_all
  then have "paints 1 (block_cells w h (start_coord w) (start_coord h)) w h ?m0
      (open_block w h (start_coord w) (start_coord h) ?m0)"
    by (intro open_block_paints) (simp add: sealed_def)
  then obtain m1 where m1: "open_block w h (start_coord w) (start_coord h) ?m0 = Inr m1"
    and p: "paints 1 (block_cells w h (start_coord w) (start_coord h)) w h ?m0 (Inr m1)"
    unfolding paints_def by auto
  have "sealed w h m1" using p s0
  proof (rule paints_sealed)
    fix c assume c: "c \<in> block_cells w h (start_coord w) (start_coord h)"
    have "4 \<le> start_coord w" "start_coord w \<le> w - 5" "4 \<le> start_coord h" "start_coord h \<le> h - 5"
      using start_coord_bounds [OF assms(1)] start_coord_bounds [OF assms(2)] by simp_all
    then show "inner w h c" using c by (rule block_cells_inner)
  qed
  with m1 show ?thesis by blast
qed

lemma start_in_grid: "29 \<le> w \<Longrightarrow> 29 \<le> h \<Longrightarrow> in_grid w h (start_coord w, start_coord h)"
  using start_coord_bounds [of w] start_coord_bounds [of h] by (simp add: in_grid_def)


text \<open>The values of \<^verbatim>\<open>range\<close> and \<^verbatim>\<open>randrange\<close> lie in the half-open interval.\<close>

lemma range_index_bound:
  assumes "0 < step" "k < range_len a b step"
  shows "a \<le> a + step * int k \<and> a + step * int k < b"
proof -
  let ?q = "(b - a + step - 1) div step"
  from assms(2) have k: "int k < ?q"
    by (auto simp: range_len_def split: if_splits)
  have "step * ?q = (b - a + step - 1) - (b - a + step - 1) mod step"
    by (simp add: minus_mod_eq_mult_div)
  moreover have "0 \<le> (b - a + step - 1) mod step" using assms(1) by simp
  ultimately have q: "step * ?q \<le> b - a + step - 1" by linarith
  from k have "int k + 1 \<le> ?q" by simp
  then have "step * (int k + 1) \<le> step * ?q" using assms(1) by (simp add: mult_left_mono)
  with q have "step * int k + step \<le> b - a + step - 1" by (simp add: algebra_simps)
  moreover have "0 \<le> step * int k" using assms(1) by simp
  ultimately show ?thesis by linarith
qed

lemma py_range_bounds:
  assumes "t \<in> set (py_range a b step)" "0 < step"
  shows "a \<le> t \<and> t < b"
proof -
  from assms(1) obtain k where "k < range_len a b step" "t = a + step * int k"
    by (auto simp: py_range_def)
  with range_index_bound [OF assms(2), of k a b] show ?thesis by simp
qed

lemma randrange_bounds:
  assumes "randrange a b step r = Inr x" "0 < step"
  shows "a \<le> x \<and> x < b"
proof -
  from assms(1) have n: "range_len a b step \<noteq> 0" and x: "x = a + step * int (r mod range_len a b step)"
    by (auto simp: randrange_def split: if_splits)
  from n have "r mod range_len a b step < range_len a b step" by simp
  from range_index_bound [OF assms(2) this] x show ?thesis by simp
qed

text \<open>Rooms, their doors and the extra connections keep away from the border.\<close>

lemma room_candidate_bounds:
  assumes "room_candidate w h g i = Inr (room_x, room_y, room_w, room_h)"
  shows "15 \<le> room_w \<and> 15 \<le> room_h \<and> 5 \<le> room_x \<and> room_x + room_w < w - 5
       \<and> 5 \<le> room_y \<and> room_y + room_h < h - 5"
proof -
  from assms have
    rw: "randrange 15 26 2 (room_w_draw g i) = Inr room_w" and
    rh: "randrange 15 26 2 (room_h_draw g i) = Inr room_h" and
    rx: "randrange 5 (w - room_w - 5) 2 (room_x_draw g i) = Inr room_x" and
    ry: "randrange 5 (h - room_h - 5) 2 (room_y_draw g i) = Inr room_y"
    by (auto simp: room_candidate_def split: sum.splits)
  from randrange_bounds [OF rw] randrange_bounds [OF rh] randrange_bounds [OF rx]
    randrange_bounds [OF ry] show ?thesis by simp
qed

lemma carve_room_sealed:
  assumes "carve_room room_x room_y room_w room_h m = Inr m'" "sealed w h m"
      and "0 \<le> room_x" "room_x + room_w \<le> w" "0 \<le> room_y" "room_y + room_h \<le> h"
  shows "sealed w h m'"
proof (rule efold_invariant [where I = "sealed w h", OF assms(1) [unfolded carve_room_def] assms(2)])
  fix ry t t'
  assume ry: "ry \<in> set [room_y + 1..room_y + room_h - 2]" and t: "sealed w h t"
    and e: "efold (\<lambda>rx m. maze_set m ry rx 2) [room_x + 1..room_x + room_w - 2] t = Inr t'"
  show "sealed w h t'"
  proof (rule efold_invariant [where I = "sealed w h", OF e t])
    fix rx u u'
    assume rx: "rx \<in> set [room_x + 1..room_x + room_w - 2]" and u: "sealed w h u"
      and s: "maze_set u ry rx 2 = Inr u'"
    have "inner w h (rx, ry)" using rx ry assms(3-6) by (simp add: inner_def)
    with u show "sealed w h u'" using s by (rule maze_set_sealed)
  qed
qed

lemma door_inner:
  assumes "5 \<le> room_x" "room_x + room_w < w - 5" "5 \<le> room_y" "room_y + room_h < h - 5"
      and "t \<in> set (side_range sd room_x room_y room_w room_h)"
      and "0 \<le> room_w" "0 \<le> room_h"
  shows "inner w h (snd (side_door sd room_x room_y room_w room_h t),
                    fst (side_door sd room_x room_y room_w room_h t))"
proof (cases sd)
  case Top
  with assms(5) py_range_bounds [of t "room_x + 2" "room_x + room_w - 2" 2] assms(1-4,6,7)
  show ?thesis by (simp add: side_range_def side_door_def inner_def)
next
  case Bottom
  with assms(5) py_range_bounds [of t "room_x + 2" "room_x + room_w - 2" 2] assms(1-4,6,7)
  show ?thesis by (simp add: side_range_def side_door_def inner_def)
next
  case Left
  with assms(5) py_range_bounds [of t "room_y + 2" "room_y + room_h - 2" 2] assms(1-4,6,7)
  show ?thesis by (simp add: side_range_def side_door_def inner_def)
next
  case Right
  with assms(5) py_range_bounds [of t "room_y + 2" "room_y + room_h - 2" 2] assms(1-4,6,7)
  show ?thesis by (simp add: side_range_def side_door_def inner_def)
qed

lemma connect_side_sealed:
  assumes "connect_side w h sd room_x room_y room_w room_h ts m = Inr (m', found)" "sealed w h m"
      and "\<And>t. t \<in> set ts \<Longrightarrow>
             inner w h (snd (side_door sd room_x room_y room_w room_h t),
                        fst (side_door sd room_x room_y room_w room_h t))"
  shows "sealed w h m'"
  using assms
proof (induction ts)
  case Nil
  then show ?case by simp
next
  case (Cons t ts)
  let ?door = "side_door sd room_x room_y room_w room_h t"
  show ?case
  proof (cases "connect_side w h sd room_x room_y room_w room_h ts m = Inr (m', found)")
    case True
    then show ?thesis using Cons.prems(2,3) by (intro Cons.IH) auto
  next
    case False
    with Cons.prems(1) have "maze_set m (fst ?door) (snd ?door) 3 = Inr m'"
      by (auto split: if_splits sum.splits)
    moreover have "inner w h (snd ?door, fst ?door)" using Cons.prems(3) by simp
    ultimately show ?thesis using Cons.prems(2) maze_set_sealed by blast
  qed
qed

lemma connect_room_sealed:
  assumes "connect_room_to_maze w h max_connections sides room_x room_y room_w room_h m = Inr m'"
      and "sealed w h m"
      and "5 \<le> room_x" "room_x + room_w < w - 5" "5 \<le> room_y" "room_y + room_h < h - 5"
      and "0 \<le> room_w" "0 \<le> room_h"
  shows "sealed w h m'"
proof -
  let ?f = "\<lambda>sd (m', connections).
              if connections \<ge> max_connections then Inr (m', connections)
              else (case connect_side w h sd room_x room_y room_w room_h
                           (side_range sd room_x room_y room_w room_h) m' of
                      Inl e \<Rightarrow> Inl e
                    | Inr (m'', found) \<Rightarrow>
                        Inr (m'', if found then connections + 1 else connections))"
  from assms(1) obtain n where e: "efold ?f sides (m, 0::int) = Inr (m', n)"
    by (auto simp: connect_room_to_maze_def split: sum.splits prod.splits)
  have "sealed w h (fst (m', n))"
  proof (rule efold_invariant [where I = "\<lambda>s. sealed w h (fst s)", OF e])
    show "sealed w h (fst (m, 0::int))" using assms(2) by simp
  next
    fix sd s s'
    assume s: "sealed w h (fst s)" and f: "?f sd s = Inr s'"
    obtain t c where sc: "s = (t, c)" by (cases s)
    show "sealed w h (fst s')"
    proof (cases "c \<ge> max_connections")
      case True
      with f sc s show ?thesis by auto
    next
      case False
      with f sc obtain t' found where
        cs: "connect_side w h sd room_x room_y room_w room_h
               (side_range sd room_x room_y room_w room_h) t = Inr (t', found)"
        and s': "fst s' = t'"
        by (auto split: sum.splits prod.splits)
      from cs have "sealed w h t'"
      proof (rule connect_side_sealed)
        show "sealed w h t" using s sc by simp
      next
        fix u assume "u \<in> set (side_range sd room_x room_y room_w room_h)"
        then show "inner w h (snd (side_door sd room_x room_y room_w room_h u),
                        fst (side_door sd room_x room_y room_w room_h u))"
          using assms(3-8) by (intro door_inner)
      qed
      with s' show ?thesis by simp
    qed
  qed
  then show ?thesis by simp
qed


lemma add_room_cases:
  assumes "add_room w h g i st = Inr st'"
  shows "st' = st
       \<or> (\<exists>room_x room_y room_w room_h m1 rs m2.
             room_candidate w h g i = Inr (room_x, room_y, room_w, room_h)
           \<and> carve_room room_x room_y room_w room_h (fst st) = Inr m1
           \<and> snd st = Some rs
           \<and> connect_room_to_maze w h (randint 2 4 (room_links_draw g i))
                (shuffle (sides_draw g i) [Top, Bottom, Left, Right])
                room_x room_y room_w room_h m1 = Inr m2
           \<and> fst st' = m2)"
proof -
  obtain c where c: "room_candidate w h g i = Inr c"
    using assms by (auto simp: add_room_def split: sum.splits)
  obtain room_x room_y room_w room_h where cc: "c = (room_x, room_y, room_w, room_h)"
    by (cases c)
  note c' = c [unfolded cc]
  obtain wall_count where wc: "count_walls (fst st) room_x room_y room_w room_h = Inr wall_count"
    using assms c'
    by (cases "count_walls (fst st) room_x room_y room_w room_h") (simp_all add: add_room_def)
  show ?thesis
  proof (cases "real_of_int wall_count > real_of_int (room_w * room_h) * 0.8")
    case False
    then have "st' = st" using assms c' wc by (simp add: add_room_def)
    then show ?thesis by simp
  next
    case True
    obtain m1 where r: "carve_room room_x room_y room_w room_h (fst st) = Inr m1"
      using assms c' wc True
      by (cases "carve_room room_x room_y room_w room_h (fst st)") (simp_all add: add_room_def)
    obtain rs where rs: "snd st = Some rs"
      using assms c' wc True r by (cases "snd st") (simp_all add: add_room_def)
    obtain m2 where d: "connect_room_to_maze w h (randint 2 4 (room_links_draw g i))
          (shuffle (sides_draw g i) [Top, Bottom, Left, Right])
          room_x room_y room_w room_h m1 = Inr m2" and s: "fst st' = m2"
      using assms c' wc True r rs
      by (cases "connect_room_to_maze w h (randint 2 4 (room_links_draw g i))
          (shuffle (sides_draw g i) [Top, Bottom, Left, Right])
          room_x room_y room_w room_h m1") (auto simp add: add_room_def)
    from c' r rs d s show ?thesis by blast
  qed
qed

lemma add_room_sealed:
  assumes "add_room w h g i st = Inr st'" "sealed w h (fst st)"
  shows "sealed w h (fst st')"
proof -
  from add_room_cases [OF assms(1)] consider "st' = st"
    | room_x room_y room_w room_h m1 m2 where
        "room_candidate w h g i = Inr (room_x, room_y, room_w, room_h)"
        "carve_room room_x room_y room_w room_h (fst st) = Inr m1"
        "connect_room_to_maze w h (randint 2 4 (room_links_draw g i))
                (shuffle (sides_draw g i) [Top, Bottom, Left, Right])
                room_x room_y room_w room_h m1 = Inr m2"
        "fst st' = m2"
    by blast
  then show ?thesis
  proof cases
    case 1
    with assms(2) show ?thesis by simp
  next
    case (2 room_x room_y room_w room_h m1 m2)
    from room_candidate_bounds [OF 2(1)] have b:
      "15 \<le> room_w" "15 \<le> room_h" "5 \<le> room_x" "room_x + room_w < w - 5"
      "5 \<le> room_y" "room_y + room_h < h - 5" by simp_all
    have "sealed w h m1"
      by (rule carve_room_sealed [OF 2(2) assms(2)]) (use b in simp_all)
    then have "sealed w h m2"
      by (rule connect_room_sealed [OF 2(3)]) (use b in simp_all)
    with 2(4) show ?thesis by simp
  qed
qed

lemma add_rooms_sealed:
  assumes "add_rooms w h g st = Inr st'" "sealed w h (fst st)"
  shows "sealed w h (fst st')"
  by (rule efold_invariant [where I = "\<lambda>s. sealed w h (fst s)",
        OF assms(1) [unfolded add_rooms_def] assms(2)]) (rule add_room_sealed)

lemma add_connection_cases:
  assumes "add_connection w h g max_connections t st = Inr st'"
  shows "st' = st
       \<or> (\<exists>x y m'. randrange 2 (w - 2) 1 (conn_x_draw g t) = Inr x
             \<and> randrange 2 (h - 2) 1 (conn_y_draw g t) = Inr y
             \<and> maze_get (fst st) y x = Inr 0
             \<and> ((\<exists>a b. maze_get (fst st) y (x - 1) = Inr a \<and> walkable a
                        \<and> maze_get (fst st) y (x + 1) = Inr b \<and> walkable b)
                \<or> (\<exists>a b. maze_get (fst st) (y - 1) x = Inr a \<and> walkable a
                        \<and> maze_get (fst st) (y + 1) x = Inr b \<and> walkable b))
             \<and> maze_set (fst st) y x 3 = Inr m' \<and> st' = (m', snd st + 1))"
proof (cases "snd st \<ge> max_connections")
  case True
  with assms show ?thesis by (simp add: add_connection_def)
next
  case False
  note full = False
  obtain x where x: "randrange 2 (w - 2) 1 (conn_x_draw g t) = Inr x"
    using assms full
    by (cases "randrange 2 (w - 2) 1 (conn_x_draw g t)") (simp_all add: add_connection_def)
  obtain y where y: "randrange 2 (h - 2) 1 (conn_y_draw g t) = Inr y"
    using assms full x
    by (cases "randrange 2 (h - 2) 1 (conn_y_draw g t)") (simp_all add: add_connection_def)
  obtain c where c: "maze_get (fst st) y x = Inr c"
    using assms full x y by (cases "maze_get (fst st) y x") (simp_all add: add_connection_def)
  show ?thesis
  proof (cases "c = 0")
    case False
    with assms full x y c show ?thesis by (simp add: add_connection_def)
  next
    case True
    obtain hz where hz: "both_open (fst st) (y, x - 1) (y, x + 1) = Inr hz"
      using assms full x y c True
      by (cases "both_open (fst st) (y, x - 1) (y, x + 1)") (simp_all add: add_connection_def)
    have open_pair: "\<exists>a b. maze_get (fst st) (fst p) (snd p) = Inr a \<and> walkable a
                        \<and> maze_get (fst st) (fst q) (snd q) = Inr b \<and> walkable b"
      if "both_open (fst st) p q = Inr True" for p q
      using that by (auto simp: both_open_def split: sum.splits if_splits)
    show ?thesis
    proof (cases "hz \<and> conn_h_coin g t < 0.3")
      case True
      then have "both_open (fst st) (y, x - 1) (y, x + 1) = Inr True" using hz by simp
      from open_pair [OF this] have nb: "\<exists>a b. maze_get (fst st) y (x - 1) = Inr a \<and> walkable a
                        \<and> maze_get (fst st) y (x + 1) = Inr b \<and> walkable b" by simp
      obtain m' where m': "maze_set (fst st) y x 3 = Inr m'"
        using assms full x y c \<open>c = 0\<close> hz True
        by (cases "maze_set (fst st) y x 3") (simp_all add: add_connection_def)
      have "st' = (m', snd st + 1)"
        using assms full x y c \<open>c = 0\<close> hz True m' by (simp add: add_connection_def)
      with x y c \<open>c = 0\<close> nb m' show ?thesis by blast
    next
      case False
      note noh = False
      obtain vt where vt: "both_open (fst st) (y - 1, x) (y + 1, x) = Inr vt"
        using assms full x y c \<open>c = 0\<close> hz noh
        by (cases "both_open (fst st) (y - 1, x) (y + 1, x)") (auto simp add: add_connection_def)
      show ?thesis
      proof (cases "vt \<and> conn_v_coin g t < 0.3")
        case True
        then have "both_open (fst st) (y - 1, x) (y + 1, x) = Inr True" using vt by simp
        from open_pair [OF this] have nb: "\<exists>a b. maze_get (fst st) (y - 1) x = Inr a \<and> walkable a
                        \<and> maze_get (fst st) (y + 1) x = Inr b \<and> walkable b" by simp
        obtain m' where m': "maze_set (fst st) y x 3 = Inr m'"
          using assms full x y c \<open>c = 0\<close> hz noh vt True
          by (cases "maze_set (fst st) y x 3") (auto simp add: add_connection_def)
        have "st' = (m', snd st + 1)"
          using assms full x y c \<open>c = 0\<close> hz noh vt True m' by (auto simp add: add_connection_def)
        with x y c \<open>c = 0\<close> nb m' show ?thesis by blast
      next
        case False
        then have "st' = st"
          using assms full x y c \<open>c = 0\<close> hz noh vt by (auto simp add: add_connection_def)
        then show ?thesis by simp
      qed
    qed
  qed
qed

lemma add_connection_sealed:
  assumes "add_connection w h g max_connections t st = Inr st'" "sealed w h (fst st)"
  shows "sealed w h (fst st')"
proof -
  from add_connection_cases [OF assms(1)] consider "st' = st"
    | x y m' where "randrange 2 (w - 2) 1 (conn_x_draw g t) = Inr x"
        "randrange 2 (h - 2) 1 (conn_y_draw g t) = Inr y"
        "maze_set (fst st) y x 3 = Inr m'" "st' = (m', snd st + 1)"
    by blast
  then show ?thesis
  proof cases
    case 1
    with assms(2) show ?thesis by simp
  next
    case (2 x y m')
    from randrange_bounds [OF 2(1)] randrange_bounds [OF 2(2)] have "inner w h (x, y)"
      by (simp add: inner_def)
    with assms(2) have "sealed w h m'" using 2(3) by (rule maze_set_sealed)
    with 2(4) show ?thesis by simp
  qed
qed

lemma add_random_connections_sealed:
  assumes "add_random_connections w h g m = Inr m'" "sealed w h m"
  shows "sealed w h m'"
proof -
  from assms(1) obtain n where
    e: "efold (add_connection w h g (randint 15 25 (max_connections_draw g)))
          [0..<nat (randint 15 25 (max_connections_draw g) * 3)] (m, 0) = Inr (m', n)"
    by (auto simp: add_random_connections_def Let_def split: sum.splits prod.splits)
  have "sealed w h (fst (m', n))"
    by (rule efold_invariant [where I = "\<lambda>s. sealed w h (fst s)", OF e])
      (use assms(2) in simp, rule add_connection_sealed)
  then show ?thesis by simp
qed

lemma generate_maze_sealed:
  assumes "29 \<le> w" "29 \<le> h" "generate_maze w h g rooms0 = Inr (m, rs)"
  shows "sealed w h m"
proof -
  let ?m0 = "replicate (nat h) (replicate (nat w) 0)"
  from start_block_sealed [OF assms(1,2)] obtain m1 where
    m1: "open_block w h (start_coord w) (start_coord h) ?m0 = Inr m1" and s1: "sealed w h m1"
    by blast
  have "list_all (in_grid w h) [(start_coord w, start_coord h)]"
    using start_in_grid [OF assms(1,2)] by simp
  from carve_passages_sealed [OF s1 this, of "dirs_draw g" 0] obtain m2 where
    m2: "carve_passages w h (dirs_draw g) 0 m1 [(start_coord w, start_coord h)] = Inr m2"
    and s2: "sealed w h m2" by blast
  from assms(3) m1 m2 obtain m3 rooms1 where
    m3: "add_rooms w h g (m2, rooms0) = Inr (m3, rooms1)" and
    m4: "add_random_connections w h g m3 = Inr m"
    by (auto simp: generate_maze_def Let_def split: sum.splits prod.splits)
  from add_rooms_sealed [OF m3] s2 have "sealed w h m3" by simp
  with m4 show ?thesis by (rule add_random_connections_sealed)
qed

lemma set_spawn_offsets: "set spawn_offsets = {-2..2}"
  unfolding spawn_offsets_def by (rule set_upto)

definition spawn_area :: "int \<Rightarrow> int \<Rightarrow> int \<Rightarrow> int \<Rightarrow> (int \<times> int) set" where
  "spawn_area w h sx sz = {(x, z). \<bar>x - sx\<bar> \<le> 2 \<and> \<bar>z - sz\<bar> \<le> 2 \<and> in_grid w h (x, z)}"

lemma force_spawn_area_paints:
  assumes "wf_grid w h m"
  shows "paints 2 (spawn_area w h sx sz) w h m (force_spawn_area w h sx sz m)"
proof -
  let ?g = "\<lambda>dx dz. 0 \<le> sx + dx \<and> sx + dx < w \<and> 0 \<le> sz + dz \<and> sz + dz < h"
  let ?S = "\<lambda>dx dz. if ?g dx dz then {(sx + dx, sz + dz)} else {}"
  have col: "paints 2 (\<Union>dz\<in>set spawn_offsets. ?S dx dz) w h t
      (efold (\<lambda>dz m. if ?g dx dz then maze_set m (sz + dz) (sx + dx) 2 else Inr m)
         spawn_offsets t)"
    if "wf_grid w h t" for dx t
    using that by (intro paints_efold paints_guarded) (auto simp: in_grid_def)
  have "paints 2 (\<Union>dx\<in>set spawn_offsets. \<Union>dz\<in>set spawn_offsets. ?S dx dz) w h m
      (force_spawn_area w h sx sz m)"
    unfolding force_spawn_area_def using assms by (intro paints_efold col)
  moreover have "(\<Union>dx\<in>set spawn_offsets. \<Union>dz\<in>set spawn_offsets. ?S dx dz)
      = spawn_area w h sx sz"
  proof (intro set_eqI iffI)
    fix c assume "c \<in> (\<Union>dx\<in>set spawn_offsets. \<Union>dz\<in>set spawn_offsets. ?S dx dz)"
    then show "c \<in> spawn_area w h sx sz"
      by (auto simp: set_spawn_offsets spawn_area_def in_grid_def split: if_splits)
  next
    fix c assume c: "c \<in> spawn_area w h sx sz"
    obtain x z where xz: "c = (x, z)" by (cases c)
    with c have "x - sx \<in> set spawn_offsets" "z - sz \<in> set spawn_offsets" "?g (x - sx) (z - sz)"
      by (auto simp: set_spawn_offsets spawn_area_def in_grid_def)
    moreover have "c \<in> ?S (x - sx) (z - sz)" using xz calculation(3) by simp
    ultimately show "c \<in> (\<Union>dx\<in>set spawn_offsets. \<Union>dz\<in>set spawn_offsets. ?S dx dz)"
      by blast
  qed
  ultimately show ?thesis by (rule paints_cong)
qed

lemma force_spawn_area_sealed:
  assumes "sealed w h m" "29 \<le> w" "29 \<le> h"
  shows "\<exists>m'. force_spawn_area w h (w div 2) (h div 2) m = Inr m' \<and> sealed w h m'"
proof -
  have "paints 2 (spawn_area w h (w div 2) (h div 2)) w h m
      (force_spawn_area w h (w div 2) (h div 2) m)"
    using assms(1) by (intro force_spawn_area_paints) (simp add: sealed_def)
  then obtain m' where m': "force_spawn_area w h (w div 2) (h div 2) m = Inr m'"
    and p: "paints 2 (spawn_area w h (w div 2) (h div 2)) w h m (Inr m')"
    unfolding paints_def by auto
  have "sealed w h m'" using p assms(1)
  proof (rule paints_sealed)
    fix c assume "c \<in> spawn_area w h (w div 2) (h div 2)"
    then show "inner w h c" using assms(2,3) by (auto simp: spawn_area_def inner_def)
  qed
  with m' show ?thesis by blast
qed

text \<open>
  C4 (amended). For every maze generated with an effective width and height of at
  least 29, whatever the draws and whether or not the room list exists, every cell
  of the outer border is a wall; the forced spawn carve around the centre of such
  a maze returns and leaves the border a wall as well.
\<close>

theorem border_stays_wall:
  assumes "29 \<le> w" "29 \<le> h" "generate_maze w h g rooms0 = Inr (m, rs)"
  shows "border_wall w h m
       \<and> (\<exists>m'. force_spawn_area w h (w div 2) (h div 2) m = Inr m' \<and> border_wall w h m')"
proof -
  have s: "sealed w h m" using assms by (rule generate_maze_sealed)
  from force_spawn_area_sealed [OF s assms(1,2)] s show ?thesis
    by (auto simp: sealed_def)
qed

theorem border_stays_wall_witness:
  "\<exists>m rs m'. generate_maze 31 31 zero_rng None = Inr (m, rs) \<and> border_wall 31 31 m
      \<and> force_spawn_area 31 31 (31 div 2) (31 div 2) m = Inr m' \<and> border_wall 31 31 m'"
proof -
  from construction_30_31 obtain mm where "maze_map_init 30 31 0 zero_rng = Inr mm"
    by (cases "maze_map_init 30 31 0 zero_rng") simp_all
  from maze_map_init_dims [OF this] obtain r where
    "generate_maze (effective_dim 30) (effective_dim 31) zero_rng None = Inr r" by blast
  then obtain m rs where g: "generate_maze 31 31 zero_rng None = Inr (m, rs)"
    by (cases r) (simp add: effective_dim_def)
  from border_stays_wall [OF _ _ g] g show ?thesis by auto
qed

text \<open>
  The claim as stated fails at an effective width of 27: the start cell is
  \<open>(24, 24)\<close>, and its 7x7 block, clipped to the grid only, opens the border cells
  \<open>(26, 21) \<dots> (26, 27)\<close>.
\<close>

lemma slow_construction_27_31:
  "case maze_map_init 27 31 0 zero_rng of
     Inl e \<Rightarrow> False
   | Inr mm \<Rightarrow> width mm = 27 \<and> height mm = 31 \<and> maze_get (maze mm) 24 26 = Inr 1
               \<and> \<not> border_wall 27 31 (maze mm)"
  by code_simp

theorem border_open_at_27:
  "\<exists>mm. maze_map_init 27 31 0 zero_rng = Inr mm \<and> width mm = 27 \<and> height mm = 31
        \<and> maze_get (maze mm) 24 26 = Inr 1 \<and> \<not> border_wall 27 31 (maze mm)"
  using slow_construction_27_31 by (cases "maze_map_init 27 31 0 zero_rng") simp_all

end
